theory Spec2Isabelle
  imports Main
begin

section \<open>Go runtime: integers, strings and dynamic values\<close>

text \<open>
  A Go \<open>int\<close> and an \<open>int64\<close> hold 64 bits in two's complement (on the 64-bit platforms
  the library targets). The model computes on mathematical integers and writes the
  wrap-around out: \<open>int64 x\<close> is the value a 64-bit variable holds after the exact result
  \<open>x\<close> was stored into it.
\<close>

definition int64 :: "int \<Rightarrow> int" where
  "int64 x = (x + 2 ^ 63) mod 2 ^ 64 - 2 ^ 63"

text \<open>\<open>fmt.Sprintf("%d", n)\<close>: the decimal digits, with a minus sign for a negative number.\<close>

definition digit :: "nat \<Rightarrow> char" where
  "digit d = ''0123456789'' ! (d mod 10)"

fun decimal :: "nat \<Rightarrow> string" where
  "decimal n = (if n < 10 then [digit n] else decimal (n div 10) @ [digit (n mod 10)])"

declare decimal.simps [simp del]

definition itoa :: "int \<Rightarrow> string" where
  "itoa i = (if i < 0 then ''-'' @ decimal (nat (- i)) else decimal (nat i))"

text \<open>\<open>strings.Join(elems, sep)\<close>.\<close>

fun Join :: "string list \<Rightarrow> string \<Rightarrow> string" where
  "Join [] sep = []"
| "Join [x] sep = x"
| "Join (x # y # ys) sep = x @ sep @ Join (y # ys) sep"

text \<open>
  A value of type \<open>interface{}\<close>. The code tells apart the nil interface, strings, maps
  \<open>map[string]interface{}\<close>, slices (by reflection) and \<open>Condition\<close> structs; booleans and
  integers stand for the scalars it only passes through. A map is kept as the list of its
  entries in the order in which this execution's \<open>range\<close> visits them (Go leaves that
  order open), and is looked up with \<open>map_of\<close>.
\<close>

datatype val =
    VNil
  | VBool bool
  | VInt int
  | VStr string
  | VSlice "val list"
  | VMap "(string \<times> val) list"
  | VCond Condition
and Condition = Condition (Type: string) (Values: "val list")

section \<open>Conditions.go\<close>

definition ConditionIn :: string where "ConditionIn = ''IN''"
definition ConditionBetween :: string where "ConditionBetween = ''BETWEEN''"
definition ConditionIsNull :: string where "ConditionIsNull = ''IS NULL''"
definition ConditionIsNotNull :: string where "ConditionIsNotNull = ''IS NOT NULL''"
definition ConditionLike :: string where "ConditionLike = ''LIKE''"
definition ConditionGt :: string where "ConditionGt = ''>''"
definition ConditionLt :: string where "ConditionLt = ''<''"
definition ConditionGte :: string where "ConditionGte = ''>=''"
definition ConditionLte :: string where "ConditionLte = ''<=''"
definition ConditionNeq :: string where "ConditionNeq = ''!=''"

text \<open>A run-time panic of the Go program: the call does not return.\<close>

datatype panic = IndexOutOfRange

text \<open>\<open>fmt.Sprintf("$%d", *argIndex)\<close>.\<close>

definition placeholder :: "int \<Rightarrow> string" where
  "placeholder n = ''$'' @ itoa n"

text \<open>
  The loop of the \<open>IN\<close> case over the elements of the slice: one placeholder and one
  argument per element, the counter incremented each time.
\<close>

fun in_loop :: "val list \<Rightarrow> string list \<Rightarrow> val list \<Rightarrow> int \<Rightarrow> string list \<times> val list \<times> int" where
  "in_loop [] inArgs args argIndex = (inArgs, args, argIndex)"
| "in_loop (v # vs) inArgs args argIndex =
     in_loop vs (inArgs @ [placeholder argIndex]) (args @ [v]) (int64 (argIndex + 1))"

text \<open>
  \<open>Condition.ToSQL(col, argIndex)\<close>. The counter behind the pointer is passed in and
  returned. \<open>c.Values[0]\<close> and \<open>c.Values[1]\<close> panic when the slice is too short.
\<close>

definition ToSQL :: "Condition \<Rightarrow> string \<Rightarrow> int \<Rightarrow> panic + (string \<times> val list \<times> int)" where
  "ToSQL c col argIndex =
     (if Type c = ConditionIn then
        (case Values c of
           [] \<Rightarrow> Inl IndexOutOfRange
         | valSlice # _ \<Rightarrow>
             (case valSlice of
                VSlice rv \<Rightarrow>
                  if length rv = 0 then Inr (''1=0'', [], argIndex)
                  else (case in_loop rv [] [] argIndex of
                          (inArgs, args, argIndex') \<Rightarrow>
                            Inr (col @ '' IN ('' @ Join inArgs '', '' @ '')'', args, argIndex'))
              | _ \<Rightarrow>
                  Inr (col @ '' IN ('' @ Join [placeholder argIndex] '', '' @ '')'',
                       [valSlice], int64 (argIndex + 1))))
      else if Type c = ConditionBetween then
        (case Values c of
           v0 # v1 # _ \<Rightarrow>
             Inr (col @ '' BETWEEN '' @ placeholder argIndex @ '' AND ''
                    @ placeholder (int64 (argIndex + 1)),
                  [v0, v1], int64 (argIndex + 2))
         | _ \<Rightarrow> Inl IndexOutOfRange)
      else if Type c = ConditionIsNull then Inr (col @ '' IS NULL'', [], argIndex)
      else if Type c = ConditionIsNotNull then Inr (col @ '' IS NOT NULL'', [], argIndex)
      else if Type c = ConditionLike then
        (case Values c of
           [] \<Rightarrow> Inl IndexOutOfRange
         | v0 # _ \<Rightarrow>
             Inr (col @ '' ILIKE '' @ placeholder argIndex, [v0], int64 (argIndex + 1)))
      else if Type c = ConditionGt then
        (case Values c of
           [] \<Rightarrow> Inl IndexOutOfRange
         | v0 # _ \<Rightarrow>
             Inr (col @ '' > '' @ placeholder argIndex, [v0], int64 (argIndex + 1)))
      else if Type c = ConditionLt then
        (case Values c of
           [] \<Rightarrow> Inl IndexOutOfRange
         | v0 # _ \<Rightarrow>
             Inr (col @ '' < '' @ placeholder argIndex, [v0], int64 (argIndex + 1)))
      else if Type c = ConditionGte then
        (case Values c of
           [] \<Rightarrow> Inl IndexOutOfRange
         | v0 # _ \<Rightarrow>
             Inr (col @ '' >= '' @ placeholder argIndex, [v0], int64 (argIndex + 1)))
      else if Type c = ConditionLte then
        (case Values c of
           [] \<Rightarrow> Inl IndexOutOfRange
         | v0 # _ \<Rightarrow>
             Inr (col @ '' <= '' @ placeholder argIndex, [v0], int64 (argIndex + 1)))
      else if Type c = ConditionNeq then
        (case Values c of
           [] \<Rightarrow> Inl IndexOutOfRange
         | v0 # _ \<Rightarrow>
             Inr (col @ '' != '' @ placeholder argIndex, [v0], int64 (argIndex + 1)))
      else Inr ('''', [], argIndex))"

definition In :: "val \<Rightarrow> Condition" where
  "In values = Condition ConditionIn [values]"

definition Between :: "val \<Rightarrow> val \<Rightarrow> Condition" where
  "Between from to =
     (if from = VNil \<and> to = VNil then Condition '''' []
      else if from = VNil then Condition ConditionLte [to]
      else if to = VNil then Condition ConditionGte [from]
      else Condition ConditionBetween [from, to])"

definition IsNull :: Condition where "IsNull = Condition ConditionIsNull []"
definition IsNotNull :: Condition where "IsNotNull = Condition ConditionIsNotNull []"
definition Like :: "string \<Rightarrow> Condition" where "Like pattern = Condition ConditionLike [VStr pattern]"
definition Gt :: "val \<Rightarrow> Condition" where "Gt v = Condition ConditionGt [v]"
definition Lt :: "val \<Rightarrow> Condition" where "Lt v = Condition ConditionLt [v]"
definition Gte :: "val \<Rightarrow> Condition" where "Gte v = Condition ConditionGte [v]"
definition Lte :: "val \<Rightarrow> Condition" where "Lte v = Condition ConditionLte [v]"
definition Neq :: "val \<Rightarrow> Condition" where "Neq v = Condition ConditionNeq [v]"

section \<open>MemCache.go\<close>

text \<open>
  \<open>Value\<close> is the slice that \<open>Set\<close> received. The cache keeps this slice, not a copy of its
  bytes, and \<open>Get\<close> hands the same slice out; no method of the cache reads or writes the
  bytes behind it. So the type \<open>'v\<close> of the slices is a parameter of the model, and what
  is proved of a value holds of the slice, whatever its bytes are by then. \<open>nil\<close> is the
  nil slice. \<open>Expiration\<close> is an \<open>int64\<close> of nanoseconds since the Unix epoch.
\<close>

abbreviation nil :: "'v::default" where
  "nil \<equiv> default"

record 'v CacheItem =
  Key :: string
  Value :: 'v
  Expiration :: int

text \<open>
  \<open>evictList\<close> is the \<open>container/list\<close>, front first. \<open>items\<close> maps a key to a pointer to
  the list element that holds the item of this key; the model keeps under the key the
  item that the element holds, and every write through the pointer updates the map and
  the list together. The mutex makes each method one atomic step; it is not modelled.
\<close>

record 'v MemoryCache =
  items :: "string \<rightharpoonup> 'v CacheItem"
  evictList :: "'v CacheItem list"
  maxSize :: int

definition NewMemoryCache :: "int \<Rightarrow> 'v MemoryCache" where
  "NewMemoryCache maxSize' = \<lparr>items = Map.empty, evictList = [], maxSize = maxSize'\<rparr>"

text \<open>\<open>l.MoveToFront(e)\<close>: nothing happens when \<open>e\<close> is not an element of \<open>l\<close>.\<close>

definition MoveToFront :: "'v CacheItem \<Rightarrow> 'v CacheItem list \<Rightarrow> 'v CacheItem list" where
  "MoveToFront e l = (if e \<in> set l then e # remove1 e l else l)"

text \<open>The writes \<open>ent.Value.(*CacheItem).Value = ...\<close> through the pointer, seen from the list.\<close>

definition assign :: "'v CacheItem \<Rightarrow> 'v CacheItem \<Rightarrow> 'v CacheItem list \<Rightarrow> 'v CacheItem list" where
  "assign ent ent' l = map (\<lambda>e. if e = ent then ent' else e) l"

definition removeElement :: "'v MemoryCache \<Rightarrow> 'v CacheItem \<Rightarrow> 'v MemoryCache" where
  "removeElement c e =
     c\<lparr>evictList := remove1 e (evictList c), items := (items c)(Key e := None)\<rparr>"

definition removeOldest :: "'v MemoryCache \<Rightarrow> 'v MemoryCache" where
  "removeOldest c =
     (case evictList c of
        [] \<Rightarrow> c
      | _ # _ \<Rightarrow> removeElement c (last (evictList c)))"

text \<open>
  \<open>Set(key, value, ttl)\<close> at the clock reading \<open>now\<close> (\<open>time.Now()\<close> in Unix nanoseconds).
  \<open>time.Now().Add(ttl)\<close> is exact, and \<open>UnixNano()\<close> stores it into an \<open>int64\<close>.
\<close>

definition Set :: "'v MemoryCache \<Rightarrow> int \<Rightarrow> string \<Rightarrow> 'v \<Rightarrow> int \<Rightarrow> 'v MemoryCache" where
  "Set c now key value ttl =
     (let expiration = int64 (now + ttl) in
      case items c key of
        Some ent \<Rightarrow>
          (let ent' = ent\<lparr>Value := value, Expiration := expiration\<rparr> in
           c\<lparr>evictList := assign ent ent' (MoveToFront ent (evictList c)),
             items := (items c)(key \<mapsto> ent')\<rparr>)
      | None \<Rightarrow>
          (let ent = \<lparr>Key = key, Value = value, Expiration = expiration\<rparr>;
               c' = c\<lparr>evictList := ent # evictList c, items := (items c)(key \<mapsto> ent)\<rparr>
           in if maxSize c' > 0 \<and> int (length (evictList c')) > maxSize c'
              then removeOldest c' else c'))"

text \<open>\<open>Get(key)\<close> at the clock reading \<open>now\<close>: the result and the cache after the call.\<close>

definition Get ::
  "'v::default MemoryCache \<Rightarrow> int \<Rightarrow> string \<Rightarrow> ('v \<times> bool) \<times> 'v MemoryCache" where
  "Get c now key =
     (case items c key of
        Some ent \<Rightarrow>
          if now > Expiration ent then ((nil, False), removeElement c ent)
          else ((Value ent, True), c\<lparr>evictList := MoveToFront ent (evictList c)\<rparr>)
      | None \<Rightarrow> ((nil, False), c))"

definition Delete :: "'v MemoryCache \<Rightarrow> string \<Rightarrow> 'v MemoryCache" where
  "Delete c key =
     (case items c key of
        Some ent \<Rightarrow> removeElement c ent
      | None \<Rightarrow> c)"

definition Clear :: "'v MemoryCache \<Rightarrow> 'v MemoryCache" where
  "Clear c = c\<lparr>items := Map.empty, evictList := []\<rparr>"

text \<open>A call of one of the four methods, and a sequence of calls, each at its clock reading.\<close>

datatype 'v cache_op = OpSet string 'v int | OpGet string | OpDelete string | OpClear

fun step :: "'v::default MemoryCache \<Rightarrow> int \<times> 'v cache_op \<Rightarrow> 'v MemoryCache" where
  "step c (now, OpSet key value ttl) = Set c now key value ttl"
| "step c (now, OpGet key) = snd (Get c now key)"
| "step c (now, OpDelete key) = Delete c key"
| "step c (now, OpClear) = Clear c"

fun run :: "'v::default MemoryCache \<Rightarrow> (int \<times> 'v cache_op) list \<Rightarrow> 'v MemoryCache" where
  "run c [] = c"
| "run c (x # xs) = run (step c x) xs"

section \<open>Tables: Table.go, Cache.go and the data operations\<close>

text \<open>
  Functions of the Go library that the code calls are parameters of the model:
  \<open>Sprint\<close> is \<open>fmt.Sprintf("%v", v)\<close>; \<open>Marshal\<close> is \<open>json.Marshal\<close>, an error message or
  the data; \<open>Unmarshal data target\<close> is \<open>json.Unmarshal(data, &target)\<close> on a map, an error
  message (the target is then left alone) or the map that the target holds afterwards.
\<close>

text \<open>
  \<open>[]byte\<close> in a table. The slices that reach the cache of a table are those that
  \<open>json.Marshal\<close> has just made in \<open>setCache\<close>, which nothing else holds, and \<open>getCacheValue\<close>
  only decodes what \<open>Get\<close> hands out: no code of the repository writes into them. Here a
  slice is taken as the list of its bytes (a \<open>char\<close> is a byte), the nil slice as the empty
  list.
\<close>

type_synonym bytes = string

instantiation list :: (type) default
begin

definition "default = ([] :: 'a list)"

instance ..

end

record GoLib =
  Sprint :: "val \<Rightarrow> string"
  Marshal :: "val \<Rightarrow> string + bytes"
  Unmarshal :: "bytes \<Rightarrow> (string \<times> val) list \<Rightarrow> string + (string \<times> val) list"

text \<open>
  The database, as the code meets it through the pgx library. \<open>GetConnection\<close> is the
  error of acquiring a connection, if any. \<open>Query sql params\<close> is the error that
  \<open>conn.Query\<close> returns, or the rows that \<open>rows.Next()\<close> steps through; of each row,
  \<open>rows.Values()\<close> gives an error or the values, paired here with the names of
  \<open>rows.FieldDescriptions()\<close>. \<open>conn.Query\<close> returns only the errors met before the
  statement runs, in preparing and sending it. When the server rejects the statement
  while it runs, or the stream of rows breaks, \<open>rows.Next()\<close> returns false as at the end
  of the rows, and the error waits in \<open>rows.Err()\<close>: \<open>RowsErr sql params\<close> is what
  \<open>rows.Err()\<close> holds when the rows of this query have been read, \<open>None\<close> when the
  statement has run to its end. No function of the repository calls \<open>rows.Err()\<close>.
  Errors are their messages.
\<close>

type_synonym RowRead = "string + (string \<times> val) list"

record DatabaseConnection =
  GetConnection :: "string option"
  Query :: "string \<Rightarrow> val list \<Rightarrow> string + RowRead list"
  RowsErr :: "string \<Rightarrow> val list \<Rightarrow> string option"

text \<open>
  A column; \<open>DataType\<close> holds the text that \<open>col.DataType.String()\<close> returns. In a table,
  \<open>CacheData\<close> is a pointer and may be nil. What the code prints under \<open>DebugMode\<close> goes to
  the log only and is left out of the model.
\<close>

record Column =
  Name :: string
  DataType :: string

record Table =
  Name :: string
  Connection :: DatabaseConnection
  Columns :: "Column list"
  Cached :: bool
  CacheTTL :: int
  CacheKey :: string
  CacheMax :: int
  CacheData :: "bytes MemoryCache option"
  DebugMode :: bool

text \<open>\<open>QuoteIdentifier\<close>: every double quote doubled, the whole between double quotes.\<close>

definition QuoteIdentifier :: "string \<Rightarrow> string" where
  "QuoteIdentifier ident =
     [CHR 0x22] @ concat (map (\<lambda>ch. if ch = CHR 0x22 then [CHR 0x22, CHR 0x22] else [ch]) ident)
       @ [CHR 0x22]"

text \<open>\<open>result[name] = value\<close> on a map kept as the list of its entries.\<close>

fun store :: "string \<Rightarrow> val \<Rightarrow> (string \<times> val) list \<Rightarrow> (string \<times> val) list" where
  "store k v [] = [(k, v)]"
| "store k v (p # ps) = (if fst p = k then (k, v) # ps else p # store k v ps)"

definition fetchRowResult :: "RowRead \<Rightarrow> string + (string \<times> val) list" where
  "fetchRowResult row =
     (case row of
        Inl err \<Rightarrow> Inl (''failed to read returned values: '' @ err)
      | Inr cols \<Rightarrow> Inr (foldl (\<lambda>result (name, v). store name v result) [] cols))"

fun fetchRowsResult :: "RowRead list \<Rightarrow> string + (string \<times> val) list list" where
  "fetchRowsResult [] = Inr []"
| "fetchRowsResult (row # rows) =
     (case fetchRowResult row of
        Inl err \<Rightarrow> Inl err
      | Inr result \<Rightarrow>
          (case fetchRowsResult rows of
             Inl err \<Rightarrow> Inl err
           | Inr results \<Rightarrow> Inr (result # results)))"

subsection \<open>buildWhereClause\<close>

text \<open>The loop over the entries of one map argument.\<close>

fun where_map ::
  "(string \<times> val) list \<Rightarrow> string list \<Rightarrow> val list \<Rightarrow> int \<Rightarrow> panic + (string list \<times> val list \<times> int)" where
  "where_map [] conditions args argIndex = Inr (conditions, args, argIndex)"
| "where_map ((key, v) # rest) conditions args argIndex =
     (let quotedKey = QuoteIdentifier key in
      case v of
        VCond cond \<Rightarrow>
          (case ToSQL cond quotedKey argIndex of
             Inl p \<Rightarrow> Inl p
           | Inr (sql, condArgs, argIndex') \<Rightarrow>
               where_map rest (conditions @ [sql]) (args @ condArgs) argIndex')
      | _ \<Rightarrow>
          where_map rest (conditions @ [quotedKey @ '' = '' @ placeholder argIndex])
            (args @ [v]) (int64 (argIndex + 1)))"

text \<open>The loop over the arguments: a map, a raw fragment, or a parameter.\<close>

fun where_args ::
  "val list \<Rightarrow> string list \<Rightarrow> val list \<Rightarrow> int \<Rightarrow> panic + (string list \<times> val list \<times> int)" where
  "where_args [] conditions args argIndex = Inr (conditions, args, argIndex)"
| "where_args (arg # rest) conditions args argIndex =
     (case arg of
        VMap v \<Rightarrow>
          (case where_map v conditions args argIndex of
             Inl p \<Rightarrow> Inl p
           | Inr (conditions', args', argIndex') \<Rightarrow> where_args rest conditions' args' argIndex')
      | VStr v \<Rightarrow> where_args rest (conditions @ [v]) args argIndex
      | _ \<Rightarrow> where_args rest conditions (args @ [arg]) argIndex)"

definition buildWhereClause :: "val list \<Rightarrow> int \<Rightarrow> panic + (string \<times> val list \<times> int)" where
  "buildWhereClause whereArgs argIndex =
     (case where_args whereArgs [] [] argIndex of
        Inl p \<Rightarrow> Inl p
      | Inr (conditions, args, argIndex') \<Rightarrow>
          if length conditions = 0 then Inr ('''', args, argIndex')
          else Inr ('' WHERE '' @ Join conditions '' AND '', args, argIndex'))"

subsection \<open>Cache.go\<close>

definition EnableCache :: "Table \<Rightarrow> int \<Rightarrow> Table" where
  "EnableCache t ttl =
     (let t' = t\<lparr>Cached := True, CacheTTL := ttl,
                  CacheMax := (if CacheMax t = 0 then 1000 else CacheMax t)\<rparr>
      in t'\<lparr>CacheData := Some (NewMemoryCache (CacheMax t'))\<rparr>)"

text \<open>The first loop of \<open>getCacheKey\<close>: the first map that holds the key.\<close>

fun key_in_maps :: "string \<Rightarrow> val list \<Rightarrow> val option" where
  "key_in_maps key [] = None"
| "key_in_maps key (arg # rest) =
     (case arg of
        VMap m \<Rightarrow> (case map_of m key of Some v \<Rightarrow> Some v | None \<Rightarrow> key_in_maps key rest)
      | _ \<Rightarrow> key_in_maps key rest)"

text \<open>The second loop: \<open>for i := 0; i < len(whereArgs)-1; i += 2\<close>.\<close>

fun key_in_pairs :: "string \<Rightarrow> val list \<Rightarrow> val option" where
  "key_in_pairs key (a # b # rest) = (if a = VStr key then Some b else key_in_pairs key rest)"
| "key_in_pairs key _ = None"

definition getCacheKey :: "GoLib \<Rightarrow> Table \<Rightarrow> val list \<Rightarrow> string + string" where
  "getCacheKey L t whereArgs =
     (if \<not> Cached t then Inl ''caching is not enabled for this table''
      else if CacheKey t = '''' then Inl ''CacheKey is not defined for this table''
      else case key_in_maps (CacheKey t) whereArgs of
             Some v \<Rightarrow> Inr (Sprint L v)
           | None \<Rightarrow>
               (case key_in_pairs (CacheKey t) whereArgs of
                  Some v \<Rightarrow> Inr (Sprint L v)
                | None \<Rightarrow> Inl (''CacheKey '' @ [CHR 0x27] @ CacheKey t @ [CHR 0x27]
                         @ '' not found in whereArgs'')))"

text \<open>
  \<open>setCache\<close> at the clock reading \<open>now\<close>: the error, if any, and the table afterwards.
  Here and below the first case is \<open>t.Cached\<close> with \<open>t.CacheData\<close> not nil; otherwise the
  function returns at its guard.
\<close>

definition setCache :: "GoLib \<Rightarrow> Table \<Rightarrow> int \<Rightarrow> string \<Rightarrow> val \<Rightarrow> string option \<times> Table" where
  "setCache L t now key v =
     (case (Cached t, CacheData t) of
        (True, Some c) \<Rightarrow>
          (case Marshal L v of
             Inl err \<Rightarrow> (Some (''failed to marshal cache data: '' @ err), t)
           | Inr data \<Rightarrow> (None, t\<lparr>CacheData := Some (Set c now key data (CacheTTL t))\<rparr>))
      | _ \<Rightarrow> (None, t))"

text \<open>
  \<open>getCacheValue\<close> at the clock reading \<open>now\<close>: the two results, the map behind \<open>target\<close>
  afterwards, and the table afterwards.
\<close>

definition getCacheValue ::
  "GoLib \<Rightarrow> Table \<Rightarrow> int \<Rightarrow> string \<Rightarrow> (string \<times> val) list
     \<Rightarrow> (bool \<times> string option) \<times> (string \<times> val) list \<times> Table" where
  "getCacheValue L t now key target =
     (case (Cached t, CacheData t) of
        (True, Some c) \<Rightarrow>
          (case Get c now key of
             ((data, found), c') \<Rightarrow>
               (let t' = t\<lparr>CacheData := Some c'\<rparr> in
                if \<not> found then ((False, None), target, t')
                else (case Unmarshal L data target of
                        Inl err \<Rightarrow>
                          ((False, Some (''failed to unmarshal cache data: '' @ err)), target, t')
                      | Inr m \<Rightarrow> ((True, None), m, t'))))
      | _ \<Rightarrow> ((False, None), target, t))"

definition deleteCache :: "Table \<Rightarrow> string \<Rightarrow> string option \<times> Table" where
  "deleteCache t key =
     (case (Cached t, CacheData t) of
        (True, Some c) \<Rightarrow> (None, t\<lparr>CacheData := Some (Delete c key)\<rparr>)
      | _ \<Rightarrow> (None, t))"

definition invalidateCache :: "Table \<Rightarrow> string option \<times> Table" where
  "invalidateCache t =
     (case (Cached t, CacheData t) of
        (True, Some c) \<Rightarrow> (None, t\<lparr>CacheData := Some (Clear c)\<rparr>)
      | _ \<Rightarrow> (None, t))"

subsection \<open>The data operations\<close>

text \<open>
  What a call leaves behind: the value it returns (an error message or the rows), the
  table afterwards, the statements it passed to \<open>conn.Query\<close> with their parameters, and
  the rows that the goroutine it started has still to handle.
\<close>

type_synonym Row = "(string \<times> val) list"

record 'a Outcome =
  returned :: "string + 'a"
  table_after :: Table
  sent :: "(string \<times> val list) list"
  spawned :: "Row list"

text \<open>
  One round of the goroutine that populates the cache: the row is stored under the key
  resolved from the row itself; a failure of the resolution or of the encoding is dropped.
  \<open>cache_rows\<close> runs the rounds for a list of rows, round \<open>i\<close> at the clock reading \<open>clock i\<close>.
\<close>

definition cache_row :: "GoLib \<Rightarrow> int \<Rightarrow> Table \<Rightarrow> Row \<Rightarrow> Table" where
  "cache_row L now t row =
     (case getCacheKey L t [VMap row] of
        Inr key \<Rightarrow> snd (setCache L t now key (VMap row))
      | Inl _ \<Rightarrow> t)"

fun cache_rows :: "GoLib \<Rightarrow> (nat \<Rightarrow> int) \<Rightarrow> nat \<Rightarrow> Table \<Rightarrow> Row list \<Rightarrow> Table" where
  "cache_rows L clock i t [] = t"
| "cache_rows L clock i t (row # rows) = cache_rows L clock (Suc i) (cache_row L (clock i) t row) rows"

text \<open>One round of the goroutine of \<open>Delete\<close>, and the rounds for a list of rows.\<close>

definition uncache_row :: "GoLib \<Rightarrow> Table \<Rightarrow> Row \<Rightarrow> Table" where
  "uncache_row L t row =
     (case getCacheKey L t [VMap row] of
        Inr key \<Rightarrow> snd (deleteCache t key)
      | Inl _ \<Rightarrow> t)"

fun uncache_rows :: "GoLib \<Rightarrow> Table \<Rightarrow> Row list \<Rightarrow> Table" where
  "uncache_rows L t [] = t"
| "uncache_rows L t (row # rows) = uncache_rows L (uncache_row L t row) rows"

text \<open>
  \<open>FetchOne(whereArgs...)\<close>. \<open>now\<close> is the clock reading at the lookup in the cache, \<open>now'\<close>
  the one at the store after the query. \<open>hit\<close> is the row of the early return.
\<close>

definition FetchOne :: "GoLib \<Rightarrow> int \<Rightarrow> int \<Rightarrow> Table \<Rightarrow> val list \<Rightarrow> panic + Row Outcome" where
  "FetchOne L now now' t whereArgs =
     (let (hit, t1) =
        (if Cached t then
           (case getCacheKey L t whereArgs of
              Inr key \<Rightarrow>
                (case getCacheValue L t now key [] of
                   ((found, _), cachedResult, t') \<Rightarrow>
                     if found then (Some cachedResult, t') else (None, t'))
            | Inl _ \<Rightarrow> (None, t))
         else (None, t))
      in case hit of
        Some cachedResult \<Rightarrow>
          Inr \<lparr>returned = Inr cachedResult, table_after = t1, sent = [], spawned = []\<rparr>
      | None \<Rightarrow>
          (case buildWhereClause whereArgs 1 of
             Inl p \<Rightarrow> Inl p
           | Inr (where_clause, params, _) \<Rightarrow>
               (let selectSQL = ''SELECT * FROM '' @ Name t1 @ where_clause @ '' LIMIT 1'' in
                case GetConnection (Connection t1) of
                  Some err \<Rightarrow>
                    Inr \<lparr>returned = Inl (''failed to acquire connection: '' @ err),
                         table_after = t1, sent = [], spawned = []\<rparr>
                | None \<Rightarrow>
                    (case Query (Connection t1) selectSQL params of
                       Inl err \<Rightarrow>
                         Inr \<lparr>returned = Inl (''failed to execute fetch one: '' @ err),
                              table_after = t1, sent = [(selectSQL, params)], spawned = []\<rparr>
                     | Inr [] \<Rightarrow>
                         Inr \<lparr>returned = Inl ''no rows found'',
                              table_after = t1, sent = [(selectSQL, params)], spawned = []\<rparr>
                     | Inr (row # _) \<Rightarrow>
                         (case fetchRowResult row of
                            Inl err \<Rightarrow>
                              Inr \<lparr>returned = Inl (''failed to fetch row: '' @ err),
                                   table_after = t1, sent = [(selectSQL, params)], spawned = []\<rparr>
                          | Inr result \<Rightarrow>
                              (let t2 =
                                 (if Cached t1 then
                                    (case getCacheKey L t1 [VMap result] of
                                       Inr key \<Rightarrow> snd (setCache L t1 now' key (VMap result))
                                     | Inl _ \<Rightarrow> t1)
                                  else t1)
                               in Inr \<lparr>returned = Inr result, table_after = t2,
                                       sent = [(selectSQL, params)], spawned = []\<rparr>))))))"

definition FetchMany :: "Table \<Rightarrow> val list \<Rightarrow> panic + Row list Outcome" where
  "FetchMany t whereArgs =
     (case buildWhereClause whereArgs 1 of
        Inl p \<Rightarrow> Inl p
      | Inr (where_clause, params, _) \<Rightarrow>
          (let selectSQL = ''SELECT * FROM '' @ Name t @ where_clause in
           case GetConnection (Connection t) of
             Some err \<Rightarrow>
               Inr \<lparr>returned = Inl (''failed to acquire connection: '' @ err),
                    table_after = t, sent = [], spawned = []\<rparr>
           | None \<Rightarrow>
               (case Query (Connection t) selectSQL params of
                  Inl err \<Rightarrow>
                    Inr \<lparr>returned = Inl (''failed to execute fetch many: '' @ err),
                         table_after = t, sent = [(selectSQL, params)], spawned = []\<rparr>
                | Inr rows \<Rightarrow>
                    (case fetchRowsResult rows of
                       Inl err \<Rightarrow>
                         Inr \<lparr>returned = Inl (''failed to fetch rows: '' @ err),
                              table_after = t, sent = [(selectSQL, params)], spawned = []\<rparr>
                     | Inr results \<Rightarrow>
                         Inr \<lparr>returned = Inr results, table_after = t,
                              sent = [(selectSQL, params)],
                              spawned = (if Cached t then results else [])\<rparr>))))"

text \<open>The names of the columns of the table: the keys of \<open>validColumns\<close>.\<close>

definition validColumns :: "Table \<Rightarrow> string set" where
  "validColumns t = set (map Column.Name (Columns t))"

text \<open>The loop of \<open>Insert\<close> over the entries of \<open>data\<close>.\<close>

fun insert_parts ::
  "Table \<Rightarrow> (string \<times> val) list \<Rightarrow> string list \<Rightarrow> val list \<Rightarrow> string list \<times> val list" where
  "insert_parts t [] columns args = (columns, args)"
| "insert_parts t ((col, v) # rest) columns args =
     (if col \<in> validColumns t
      then insert_parts t rest (columns @ [QuoteIdentifier col]) (args @ [v])
      else insert_parts t rest columns args)"

definition Insert :: "Table \<Rightarrow> (string \<times> val) list \<Rightarrow> Row Outcome" where
  "Insert t data =
     (case insert_parts t data [] [] of
        (columns, args) \<Rightarrow>
          if length columns = 0 then
            \<lparr>returned = Inl ''no valid columns provided for insert'',
             table_after = t, sent = [], spawned = []\<rparr>
          else
            (let placeholders = map (\<lambda>i. placeholder (int i + 1)) [0..<length columns];
                 returningClause = '' RETURNING *'';
                 insertSQL = ''INSERT INTO '' @ Name t @ '' ('' @ Join columns '', ''
                               @ '') VALUES ('' @ Join placeholders '', '' @ '')'' @ returningClause
             in case GetConnection (Connection t) of
                  Some err \<Rightarrow>
                    \<lparr>returned = Inl (''failed to acquire connection: '' @ err),
                     table_after = t, sent = [], spawned = []\<rparr>
                | None \<Rightarrow>
                    (case Query (Connection t) insertSQL args of
                       Inl err \<Rightarrow>
                         \<lparr>returned = Inl (''failed to execute insert with returning: '' @ err),
                          table_after = t, sent = [(insertSQL, args)], spawned = []\<rparr>
                     | Inr [] \<Rightarrow>
                         \<lparr>returned = Inl ''no rows returned'',
                          table_after = t, sent = [(insertSQL, args)], spawned = []\<rparr>
                     | Inr (row # _) \<Rightarrow>
                         (case fetchRowResult row of
                            Inl err \<Rightarrow>
                              \<lparr>returned = Inl (''failed to fetch returned row: '' @ err),
                               table_after = t, sent = [(insertSQL, args)], spawned = []\<rparr>
                          | Inr result \<Rightarrow>
                              \<lparr>returned = Inr result, table_after = t,
                               sent = [(insertSQL, args)],
                               spawned = (if Cached t then [result] else [])\<rparr>))))"

text \<open>The loop of \<open>Update\<close> over the entries of \<open>data\<close>.\<close>

fun set_parts ::
  "Table \<Rightarrow> (string \<times> val) list \<Rightarrow> string list \<Rightarrow> val list \<Rightarrow> int \<Rightarrow> string list \<times> val list \<times> int" where
  "set_parts t [] setParts args argIndex = (setParts, args, argIndex)"
| "set_parts t ((col, v) # rest) setParts args argIndex =
     (if col \<in> validColumns t
      then set_parts t rest (setParts @ [QuoteIdentifier col @ '' = '' @ placeholder argIndex])
             (args @ [v]) (int64 (argIndex + 1))
      else set_parts t rest setParts args argIndex)"

text \<open>
  \<open>Update(data, whereArgs...)\<close>. The goroutine starts before \<open>invalidateCache\<close> is called and
  runs beside the caller: \<open>ahead\<close> is the number of its rounds that are over when the
  caller clears the cache, at the clock readings \<open>clock\<close>; the other rounds are left in
  \<open>spawned\<close>. \<open>table_after\<close> is the table when \<open>invalidateCache\<close> has returned.
\<close>

definition Update ::
  "GoLib \<Rightarrow> (nat \<Rightarrow> int) \<Rightarrow> nat \<Rightarrow> Table \<Rightarrow> (string \<times> val) list \<Rightarrow> val list
     \<Rightarrow> panic + Row list Outcome" where
  "Update L clock ahead t data whereArgs =
     (if length data = 0 then
        Inr \<lparr>returned = Inl ''no data to update'', table_after = t, sent = [], spawned = []\<rparr>
      else
        (case set_parts t data [] [] 1 of
           (setParts, args, argIndex) \<Rightarrow>
             if length setParts = 0 then
               Inr \<lparr>returned = Inl ''no valid columns provided for update'',
                    table_after = t, sent = [], spawned = []\<rparr>
             else
               (let setClause = Join setParts '', '' in
                case buildWhereClause whereArgs argIndex of
                  Inl p \<Rightarrow> Inl p
                | Inr (whereClause, whereArgsList, _) \<Rightarrow>
                    (let args' = args @ whereArgsList;
                         returningClause = '' RETURNING *'';
                         updateSQL = ''UPDATE '' @ Name t @ '' SET '' @ setClause @ whereClause
                                       @ returningClause
                     in case GetConnection (Connection t) of
                          Some err \<Rightarrow>
                            Inr \<lparr>returned = Inl (''failed to acquire connection: '' @ err),
                                 table_after = t, sent = [], spawned = []\<rparr>
                        | None \<Rightarrow>
                            (case Query (Connection t) updateSQL args' of
                               Inl err \<Rightarrow>
                                 Inr \<lparr>returned = Inl (''failed to execute update with returning: '' @ err),
                                      table_after = t, sent = [(updateSQL, args')], spawned = []\<rparr>
                             | Inr rows \<Rightarrow>
                                 (case fetchRowsResult rows of
                                    Inl err \<Rightarrow>
                                      Inr \<lparr>returned = Inl (''failed to fetch returned rows: '' @ err),
                                           table_after = t, sent = [(updateSQL, args')],
                                           spawned = []\<rparr>
                                  | Inr results \<Rightarrow>
                                      (let t1 = (if Cached t
                                                 then cache_rows L clock 0 t (take ahead results)
                                                 else t)
                                       in Inr \<lparr>returned = Inr results,
                                               table_after = snd (invalidateCache t1),
                                               sent = [(updateSQL, args')],
                                               spawned = (if Cached t then drop ahead results
                                                          else [])\<rparr>)))))))"

text \<open>\<open>Table.Delete(whereArgs...)\<close>, with the rounds of its goroutine as in \<open>Update\<close>.\<close>

definition Table_Delete :: "GoLib \<Rightarrow> nat \<Rightarrow> Table \<Rightarrow> val list \<Rightarrow> panic + Row list Outcome" where
  "Table_Delete L ahead t whereArgs =
     (case buildWhereClause whereArgs 1 of
        Inl p \<Rightarrow> Inl p
      | Inr (whereClause, whereArgsList, _) \<Rightarrow>
          (let returningClause = '' RETURNING *'';
               deleteSQL = ''DELETE FROM '' @ Name t @ whereClause @ returningClause
           in case GetConnection (Connection t) of
                Some err \<Rightarrow>
                  Inr \<lparr>returned = Inl (''failed to acquire connection: '' @ err),
                       table_after = t, sent = [], spawned = []\<rparr>
              | None \<Rightarrow>
                  (case Query (Connection t) deleteSQL whereArgsList of
                     Inl err \<Rightarrow>
                       Inr \<lparr>returned = Inl (''failed to execute delete with returning: '' @ err),
                            table_after = t, sent = [(deleteSQL, whereArgsList)], spawned = []\<rparr>
                   | Inr rows \<Rightarrow>
                       (case fetchRowsResult rows of
                          Inl err \<Rightarrow>
                            Inr \<lparr>returned = Inl (''failed to fetch returned rows: '' @ err),
                                 table_after = t, sent = [(deleteSQL, whereArgsList)],
                                 spawned = []\<rparr>
                        | Inr results \<Rightarrow>
                            (let t1 = (if Cached t
                                       then uncache_rows L t (take ahead results)
                                       else t)
                             in Inr \<lparr>returned = Inr results,
                                     table_after = snd (invalidateCache t1),
                                     sent = [(deleteSQL, whereArgsList)],
                                     spawned = (if Cached t then drop ahead results else [])\<rparr>)))))"

text \<open>
  The statements that \<open>CreateTable\<close> and \<open>DropTable\<close> build and pass to \<open>conn.Exec\<close>. (The
  synchronisation of the columns that follows in \<open>CreateTable\<close> is not modelled.)
\<close>

definition createTableSQL :: "Table \<Rightarrow> string" where
  "createTableSQL t =
     (let columnDefs = map (\<lambda>col. QuoteIdentifier (Column.Name col) @ '' '' @ DataType col) (Columns t)
      in ''CREATE TABLE IF NOT EXISTS '' @ QuoteIdentifier (Name t) @ '' ('' @ Join columnDefs '', ''
           @ '')'')"

definition dropTableSQL :: "Table \<Rightarrow> string" where
  "dropTableSQL t = ''DROP TABLE IF EXISTS '' @ QuoteIdentifier (Name t)"

section \<open>Notions of the specification\<close>

text \<open>
  A condition has its operands when \<open>Values\<close> is as long as the reads \<open>c.Values[0]\<close> and
  \<open>c.Values[1]\<close> of its case need. Every condition that \<open>In\<close>, \<open>Between\<close>, \<open>IsNull\<close>,
  \<open>IsNotNull\<close>, \<open>Like\<close>, \<open>Gt\<close>, \<open>Lt\<close>, \<open>Gte\<close>, \<open>Lte\<close> and \<open>Neq\<close> build has them.
\<close>

definition has_operands :: "Condition \<Rightarrow> bool" where
  "has_operands c =
     (if Type c = ConditionBetween then 2 \<le> length (Values c)
      else if Type c \<in> {ConditionIn, ConditionLike, ConditionGt, ConditionLt, ConditionGte,
                         ConditionLte, ConditionNeq} then 1 \<le> length (Values c)
      else True)"

text \<open>
  The advance of the parameter counter as the specification gives it: zero for
  \<open>IS NULL\<close>, \<open>IS NOT NULL\<close> and the empty \<open>IN\<close>, two for \<open>BETWEEN\<close>, the length of the slice
  for \<open>IN\<close> (one when the operand of \<open>IN\<close> is not a slice), one for \<open>LIKE\<close> and the five
  comparisons. A condition of no known type, such as the empty one that
  \<open>Between(nil, nil)\<close> returns, has no placeholder and no advance.
\<close>

definition spec_advance :: "Condition \<Rightarrow> nat" where
  "spec_advance c =
     (if Type c = ConditionIsNull \<or> Type c = ConditionIsNotNull then 0
      else if Type c = ConditionBetween then 2
      else if Type c = ConditionIn then (case Values c of VSlice rv # _ \<Rightarrow> length rv | _ \<Rightarrow> 1)
      else if Type c \<in> {ConditionLike, ConditionGt, ConditionLt, ConditionGte,
                         ConditionLte, ConditionNeq} then 1
      else 0)"

text \<open>The placeholders \<open>$n\<close>, \<open>$(n+1)\<close>, ..., \<open>$(n+k-1)\<close>, in this order.\<close>

definition placeholders :: "int \<Rightarrow> nat \<Rightarrow> string list" where
  "placeholders n k = map (\<lambda>i. placeholder (n + int i)) [0..<k]"

text \<open>
  The parameter placeholders of a piece of SQL text, in the order in which they stand. A
  placeholder is a \<open>$\<close> together with all the digits that follow it; the text between two
  double quotes is a quoted identifier and holds no placeholder.
\<close>

definition is_digit :: "char \<Rightarrow> bool" where
  "is_digit ch \<longleftrightarrow> ch \<in> set ''0123456789''"

datatype scan = Plain | Param string | Quoted

fun scan_placeholders :: "scan \<Rightarrow> string \<Rightarrow> string list" where
  "scan_placeholders Plain [] = []"
| "scan_placeholders (Param p) [] = [p]"
| "scan_placeholders Quoted [] = []"
| "scan_placeholders Plain (ch # s) =
     (if ch = CHR ''$'' then scan_placeholders (Param ''$'') s
      else if ch = CHR 0x22 then scan_placeholders Quoted s
      else scan_placeholders Plain s)"
| "scan_placeholders (Param p) (ch # s) =
     (if is_digit ch then scan_placeholders (Param (p @ [ch])) s
      else p # (if ch = CHR ''$'' then scan_placeholders (Param ''$'') s
                else if ch = CHR 0x22 then scan_placeholders Quoted s
                else scan_placeholders Plain s))"
| "scan_placeholders Quoted (ch # s) =
     (if ch = CHR 0x22 then scan_placeholders Plain s else scan_placeholders Quoted s)"

definition placeholders_of :: "string \<Rightarrow> string list" where
  "placeholders_of sql = scan_placeholders Plain sql"

text \<open>
  The key an operation touches: the key of a \<open>Set\<close>, and the key of a \<open>Get\<close> that finds
  its entry unexpired. \<open>touch_order\<close> lists the keys touched by a sequence of operations,
  each once, the most recently touched first.
\<close>

fun touches :: "'v::default MemoryCache \<Rightarrow> int \<times> 'v cache_op \<Rightarrow> string option" where
  "touches c (now, OpSet key value ttl) = Some key"
| "touches c (now, OpGet key) = (if snd (fst (Get c now key)) then Some key else None)"
| "touches c (now, OpDelete key) = None"
| "touches c (now, OpClear) = None"

fun touch_order ::
  "'v::default MemoryCache \<Rightarrow> string list \<Rightarrow> (int \<times> 'v cache_op) list \<Rightarrow> string list" where
  "touch_order c acc [] = acc"
| "touch_order c acc (x # xs) =
     touch_order (step c x)
       (case touches c x of Some k \<Rightarrow> k # removeAll k acc | None \<Rightarrow> acc) xs"

text \<open>The least recently touched of the keys present in the cache.\<close>

definition least_recently_touched :: "'v MemoryCache \<Rightarrow> string list \<Rightarrow> string" where
  "least_recently_touched c order = last (filter (\<lambda>k. items c k \<noteq> None) order)"

text \<open>
  The keys that the cache holds, the most recently used first, as the specification
  keeps them from call to call. \<open>Set\<close> puts its key in front; when the key is new and
  the entries then exceed a positive capacity, the least recently used key, the last
  one, goes. A \<open>Get\<close> that finds its entry puts the key in front; a \<open>Get\<close> that finds none
  leaves no entry of its key, since an expired entry is purged on access. \<open>Delete\<close>
  removes its key and \<open>Clear\<close> all of them. \<open>get_found\<close> is the flag that the call
  returned, if it is a \<open>Get\<close>; the capacity is the \<open>maxSize\<close> the cache was made with.
\<close>

fun get_found :: "'v::default MemoryCache \<Rightarrow> int \<times> 'v cache_op \<Rightarrow> bool" where
  "get_found c (now, OpGet key) = snd (fst (Get c now key))"
| "get_found c (now, x) = False"

fun held_after :: "int \<Rightarrow> string list \<Rightarrow> 'v cache_op \<Rightarrow> bool \<Rightarrow> string list" where
  "held_after m held (OpSet key value ttl) flag =
     (if key \<in> set held then key # removeAll key held
      else if 0 < m \<and> m < int (length held) + 1 then butlast (key # held)
      else key # held)"
| "held_after m held (OpGet key) flag =
     (if flag then key # removeAll key held else removeAll key held)"
| "held_after m held (OpDelete key) flag = removeAll key held"
| "held_after m held OpClear flag = []"

fun held_keys ::
  "'v::default MemoryCache \<Rightarrow> string list \<Rightarrow> (int \<times> 'v cache_op) list \<Rightarrow> string list" where
  "held_keys c held [] = held"
| "held_keys c held (x # xs) =
     held_keys (step c x) (held_after (maxSize c) held (snd x) (get_found c x)) xs"

text \<open>
  An operation affects the key \<open>k\<close> when it is a \<open>Set\<close> of \<open>k\<close>, a \<open>Delete\<close> of \<open>k\<close> or a
  \<open>Clear\<close>, or when it is a \<open>Set\<close> that evicts \<open>k\<close>: a \<open>Set\<close> of a key that the cache does
  not hold, into a cache that holds as many entries as its positive capacity \<open>m\<close> allows,
  while \<open>k\<close> is the least recently used of the keys held. A \<open>Get\<close> affects no key. A
  sequence of calls leaves \<open>k\<close> unaffected when none of them affects \<open>k\<close>, each taken with
  the keys held when it is made.
\<close>

fun affects :: "string \<Rightarrow> int \<Rightarrow> string list \<Rightarrow> 'v cache_op \<Rightarrow> bool" where
  "affects k m held (OpSet key value ttl) =
     (key = k \<or> (key \<notin> set held \<and> 0 < m \<and> m < int (length held) + 1 \<and> last held = k))"
| "affects k m held (OpGet key) = False"
| "affects k m held (OpDelete key) = (key = k)"
| "affects k m held OpClear = True"

fun unaffected ::
  "string \<Rightarrow> 'v::default MemoryCache \<Rightarrow> string list \<Rightarrow> (int \<times> 'v cache_op) list \<Rightarrow> bool" where
  "unaffected k c held [] = True"
| "unaffected k c held (x # xs) =
     (\<not> affects k (maxSize c) held (snd x)
      \<and> unaffected k (step c x) (held_after (maxSize c) held (snd x) (get_found c x)) xs)"

text \<open>An argument supplies the key through a map: it is a map that holds the key.\<close>

definition holds_key :: "string \<Rightarrow> val \<Rightarrow> bool" where
  "holds_key key a = (case a of VMap m \<Rightarrow> map_of m key \<noteq> None | _ \<Rightarrow> False)"

text \<open>
  The row that the cache holds, valid, for the arguments of a fetch: the key resolves
  from the arguments, the cache has an entry under it, the entry has not expired at the
  clock reading \<open>now\<close>, and its bytes decode.
\<close>

definition cached_row :: "GoLib \<Rightarrow> int \<Rightarrow> Table \<Rightarrow> val list \<Rightarrow> Row option" where
  "cached_row L now t args =
     (case getCacheKey L t args of
        Inl _ \<Rightarrow> None
      | Inr key \<Rightarrow>
          (case CacheData t of
             None \<Rightarrow> None
           | Some c \<Rightarrow>
               (case items c key of
                  None \<Rightarrow> None
                | Some ent \<Rightarrow>
                    if now > Expiration ent then None
                    else (case Unmarshal L (Value ent) [] of
                            Inl _ \<Rightarrow> None
                          | Inr row \<Rightarrow> Some row))))"

text \<open>The table when the lookup of \<open>FetchOne\<close> in the cache is over.\<close>

definition after_lookup :: "GoLib \<Rightarrow> int \<Rightarrow> Table \<Rightarrow> val list \<Rightarrow> Table" where
  "after_lookup L now t args =
     (case getCacheKey L t args of
        Inl _ \<Rightarrow> t
      | Inr key \<Rightarrow> snd (snd (getCacheValue L t now key [])))"

text \<open>
  The arguments of a call are well formed when every condition among the values of
  their maps has its operands; then building the filter does not panic.
\<close>

definition well_formed_entries :: "(string \<times> val) list \<Rightarrow> bool" where
  "well_formed_entries m = list_all (\<lambda>(k, v). case v of VCond c \<Rightarrow> has_operands c | _ \<Rightarrow> True) m"

definition well_formed_args :: "val list \<Rightarrow> bool" where
  "well_formed_args args = list_all (\<lambda>a. case a of VMap m \<Rightarrow> well_formed_entries m | _ \<Rightarrow> True) args"

text \<open>
  The advance of the counter over the entries of a map of the filter: that of its
  condition for an entry that holds one, one for an entry that holds a plain value.
\<close>

definition entry_advance :: "string \<times> val \<Rightarrow> nat" where
  "entry_advance entry = (case snd entry of VCond c \<Rightarrow> spec_advance c | _ \<Rightarrow> 1)"

definition filter_advance :: "(string \<times> val) list \<Rightarrow> nat" where
  "filter_advance m = sum_list (map entry_advance m)"

text \<open>The cache of the table holds no entry.\<close>

definition cache_empty :: "Table \<Rightarrow> bool" where
  "cache_empty t =
     (case CacheData t of
        Some c \<Rightarrow> dom (items c) = {} \<and> evictList c = []
      | None \<Rightarrow> False)"

text \<open>
  Where a condition of the filter comes from: it is a raw string among the arguments,
  taken as it is, or it belongs to an entry of a map among the arguments, and then it is
  the quoted key compared with a placeholder or the fragment of the entry's condition
  built on the quoted key.
\<close>

definition from_entry :: "string \<times> val \<Rightarrow> string \<Rightarrow> bool" where
  "from_entry entry cond \<longleftrightarrow>
     (\<exists>i. cond = QuoteIdentifier (fst entry) @ '' = '' @ placeholder i
        \<or> (\<exists>c a j. snd entry = VCond c \<and> ToSQL c (QuoteIdentifier (fst entry)) i = Inr (cond, a, j)))"

definition from_argument :: "val list \<Rightarrow> string \<Rightarrow> bool" where
  "from_argument args cond \<longleftrightarrow>
     VStr cond \<in> set args \<or> (\<exists>m entry. VMap m \<in> set args \<and> entry \<in> set m \<and> from_entry entry cond)"

section \<open>Examples\<close>

text \<open>
  A library and a table for the examples: \<open>Sprint\<close> prints integers and strings as Go
  does; the codec is a toy that knows one row. The table is the one of the
  specification's scenario: the key field is \<open>id\<close>, \<open>EnableCache\<close> is called with five
  seconds, and the database answers every query with the row of Alice.
\<close>

definition example_lib :: GoLib where
  "example_lib =
     \<lparr>Sprint = (\<lambda>v. case v of VInt i \<Rightarrow> itoa i | VStr s \<Rightarrow> s | _ \<Rightarrow> ''?''),
      Marshal = (\<lambda>v. case v of VMap m \<Rightarrow> Inr (concat (map (\<lambda>(k, x). k @ '';'') m))
                      | _ \<Rightarrow> Inl ''unsupported type''),
      Unmarshal = (\<lambda>data target. if data = ''id;age;'' then Inr [(''id'', VInt 1), (''age'', VInt 25)]
                      else Inl ''invalid character'')\<rparr>"

definition example_table :: Table where
  "example_table =
     EnableCache
       \<lparr>Name = ''users'',
        Connection = \<lparr>GetConnection = None,
                      Query = (\<lambda>sql params. Inr [Inr [(''id'', VInt 1), (''age'', VInt 25)]]),
                      RowsErr = (\<lambda>sql params. None)\<rparr>,
        Columns = [\<lparr>Column.Name = ''id'', DataType = ''SERIAL PRIMARY KEY''\<rparr>,
                   \<lparr>Column.Name = ''age'', DataType = ''INTEGER''\<rparr>],
        Cached = False, CacheTTL = 0, CacheKey = ''id'', CacheMax = 0,
        CacheData = None, DebugMode = False\<rparr>
       5000000000"

text \<open>
  The same table after somebody stored bytes that do not decode under the key \<open>1\<close>
  (\<open>CacheData\<close> and \<open>MemoryCache.Set\<close> are exported), with a database that has no row.
\<close>

definition corrupt_table :: Table where
  "corrupt_table =
     example_table\<lparr>Connection := \<lparr>GetConnection = None, Query = (\<lambda>sql params. Inr []),
                                    RowsErr = (\<lambda>sql params. None)\<rparr>,
                   CacheData := Some (Set (NewMemoryCache 1000) 0 ''1'' ''garbage'' 5000000000)\<rparr>"

text \<open>
  The example table with the row of Alice cached under the key \<open>1\<close>, and the same table
  when no connection can be acquired.
\<close>

definition alice_table :: Table where
  "alice_table =
     example_table\<lparr>CacheData := Some (Set (NewMemoryCache 1000) 10 ''1'' ''id;age;'' 5000000000)\<rparr>"

definition offline_table :: Table where
  "offline_table =
     alice_table\<lparr>Connection := \<lparr>GetConnection = Some ''pool closed'',
                                 Query = (\<lambda>sql params. Inl ''unreachable''),
                                 RowsErr = (\<lambda>sql params. None)\<rparr>\<rparr>"

text \<open>
  The table that caches Alice, with a server that rejects every \<open>UPDATE\<close> and every
  \<open>DELETE\<close> while it runs (a check constraint, a foreign key): \<open>conn.Query\<close> returns no
  error, the rows end at once, and the error waits in \<open>rows.Err()\<close>. And the same table
  where the statement runs to its end and \<open>rows.Values()\<close> fails on the row that comes
  back.
\<close>

definition rejecting_table :: Table where
  "rejecting_table =
     alice_table\<lparr>Connection :=
       \<lparr>GetConnection = None,
        Query = (\<lambda>sql params. Inr []),
        RowsErr = (\<lambda>sql params.
          if take 6 sql = ''UPDATE''
          then Some ''ERROR: new row for relation users violates check constraint users_age_check (SQLSTATE 23514)''
          else Some ''ERROR: update or delete on table users violates foreign key constraint orders_user_id_fkey on table orders (SQLSTATE 23503)'')\<rparr>\<rparr>"

definition unreadable_table :: Table where
  "unreadable_table =
     alice_table\<lparr>Connection :=
       \<lparr>GetConnection = None,
        Query = (\<lambda>sql params. Inr [Inl ''cannot decode the value of column age'']),
        RowsErr = (\<lambda>sql params. None)\<rparr>\<rparr>"

section \<open>Invariants of the cache\<close>

text \<open>The keys of the list, front first.\<close>

definition keys :: "'v MemoryCache \<Rightarrow> string list" where
  "keys c = map Key (evictList c)"

text \<open>
  The map and the list hold the same entries: the list has no key twice, and the map
  has an item under a key exactly when the list holds this item and the item carries the key.
\<close>

definition in_sync :: "'v MemoryCache \<Rightarrow> bool" where
  "in_sync c \<longleftrightarrow>
     distinct (keys c) \<and> (\<forall>k e. items c k = Some e \<longleftrightarrow> e \<in> set (evictList c) \<and> Key e = k)"

text \<open>
  The keys \<open>K\<close> of the list stand in the order of \<open>acc\<close>: \<open>K\<close> is what remains of \<open>acc\<close> when
  the keys outside \<open>K\<close> are dropped.
\<close>

definition ordered :: "string list \<Rightarrow> string list \<Rightarrow> bool" where
  "ordered K acc \<longleftrightarrow> K = filter (\<lambda>k. k \<in> set K) acc"


section \<open>Reading a fragment\<close>

text \<open>
  A piece of SQL text reads as a list of placeholders when scanning it yields just
  these, whatever text without a leading digit follows it.
\<close>

definition reads_as :: "string \<Rightarrow> string list \<Rightarrow> bool" where
  "reads_as rest ps \<longleftrightarrow>
     (\<forall>b. b = [] \<or> \<not> is_digit (hd b) \<longrightarrow>
        scan_placeholders Plain (rest @ b) = ps @ scan_placeholders Plain b)"

section \<open>The example table\<close>

lemma example_table_eq:
  "example_table =
     \<lparr>Name = ''users'',
      Connection = \<lparr>GetConnection = None,
                    Query = (\<lambda>sql params. Inr [Inr [(''id'', VInt 1), (''age'', VInt 25)]]),
                    RowsErr = (\<lambda>sql params. None)\<rparr>,
      Columns = [\<lparr>Column.Name = ''id'', DataType = ''SERIAL PRIMARY KEY''\<rparr>,
                 \<lparr>Column.Name = ''age'', DataType = ''INTEGER''\<rparr>],
      Cached = True, CacheTTL = 5000000000, CacheKey = ''id'', CacheMax = 1000,
      CacheData = Some (NewMemoryCache 1000), DebugMode = False\<rparr>"
  by (simp add: example_table_def EnableCache_def)

section \<open>Properties of the condition builder\<close>

lemmas ConditionType_defs =
  ConditionIn_def ConditionBetween_def ConditionIsNull_def ConditionIsNotNull_def
  ConditionLike_def ConditionGt_def ConditionLt_def ConditionGte_def ConditionLte_def
  ConditionNeq_def


subsection \<open>Placeholders and the counter\<close>

lemma int64_id: "- (2 ^ 63) \<le> x \<Longrightarrow> x < 2 ^ 63 \<Longrightarrow> int64 x = x"
  by (simp add: int64_def)

lemma in_loop_eq:
  "- (2 ^ 63) \<le> n \<Longrightarrow> n + int (length vs) < 2 ^ 63 \<Longrightarrow>
   in_loop vs inArgs args n =
     (inArgs @ map (\<lambda>i. placeholder (n + int i)) [0..<length vs], args @ vs, n + int (length vs))"
proof (induction vs arbitrary: inArgs args n)
  case Nil
  then show ?case by simp
next
  case (Cons v vs)
  have w: "int64 (n + 1) = n + 1" using Cons.prems by (intro int64_id) auto
  have "map (\<lambda>i. placeholder (n + int i)) [0..<Suc (length vs)]
      = placeholder n # map (\<lambda>i. placeholder (n + 1 + int i)) [0..<length vs]"
    by (simp add: upt_rec [of 0] map_Suc_upt [symmetric] del: upt_Suc) (simp add: ac_simps)
  then show ?case using Cons.prems Cons.IH [of "n + 1"] by (simp add: w)
qed

lemma placeholders_0 [simp]: "placeholders n 0 = []"
  by (simp add: placeholders_def)

lemma placeholders_1 [simp]: "placeholders n (Suc 0) = [placeholder n]"
  by (simp add: placeholders_def)

lemma placeholders_2: "placeholders n 2 = [placeholder n, placeholder (n + 1)]"
  by (simp add: placeholders_def numeral_2_eq_2)

lemma placeholders_Suc: "placeholders n (Suc k) = placeholder n # placeholders (n + 1) k"
proof -
  have "map (\<lambda>i. placeholder (n + int i)) [0..<Suc k]
      = placeholder n # map (\<lambda>i. placeholder (n + 1 + int i)) [0..<k]"
    by (simp add: upt_rec [of 0] map_Suc_upt [symmetric] del: upt_Suc) (simp add: ac_simps)
  then show ?thesis by (simp add: placeholders_def)
qed

lemma placeholders_add:
  "placeholders n (j + k) = placeholders n j @ placeholders (n + int j) k"
proof (induction j arbitrary: n)
  case 0
  then show ?case by simp
next
  case (Suc j)
  show ?case using Suc [of "n + 1"] by (simp add: placeholders_Suc add.assoc)
qed

lemma length_placeholders [simp]: "length (placeholders n k) = k"
  by (simp add: placeholders_def)

subsection \<open>Reading the placeholders of a fragment\<close>

text \<open>
  Text without \<open>$\<close> and without double quote is passed over; a placeholder ends where
  the digits end; a quoted identifier is passed over whatever it holds.
\<close>

lemma scan_plain_skip:
  "CHR ''$'' \<notin> set a \<Longrightarrow> CHR 0x22 \<notin> set a \<Longrightarrow>
   scan_placeholders Plain (a @ b) = scan_placeholders Plain b"
  by (induction a) auto

lemma scan_param_stop:
  "b = [] \<or> \<not> is_digit (hd b) \<Longrightarrow>
   scan_placeholders (Param p) b = p # scan_placeholders Plain b"
  by (cases b) auto

lemma scan_param_digits:
  "\<forall>ch \<in> set ds. is_digit ch \<Longrightarrow> b = [] \<or> \<not> is_digit (hd b) \<Longrightarrow>
   scan_placeholders (Param p) (ds @ b) = (p @ ds) # scan_placeholders Plain b"
proof (induction ds arbitrary: p)
  case Nil
  then show ?case by (simp add: scan_param_stop)
next
  case (Cons d ds)
  then show ?case by simp
qed

lemma digit_is_digit: "is_digit (digit d)"
proof -
  have "d mod 10 < length ''0123456789''" by simp
  then have "''0123456789'' ! (d mod 10) \<in> set ''0123456789''" by (rule nth_mem)
  then show ?thesis by (simp only: digit_def is_digit_def)
qed

lemma decimal_digits: "\<forall>ch \<in> set (decimal k). is_digit ch"
proof (induction k rule: decimal.induct)
  case (1 k)
  show ?case
  proof (cases "k < 10")
    case True
    then show ?thesis by (subst decimal.simps) (simp add: digit_is_digit)
  next
    case False
    then show ?thesis using 1 by (subst decimal.simps) (simp add: digit_is_digit)
  qed
qed

lemma scan_placeholder:
  assumes "0 \<le> n" and "b = [] \<or> \<not> is_digit (hd b)"
  shows "scan_placeholders Plain (placeholder n @ b) = placeholder n # scan_placeholders Plain b"
  using assms scan_param_digits [OF decimal_digits, of b "''$''" "nat n"]
  by (simp add: placeholder_def itoa_def)

lemma scan_join:
  assumes "sep \<noteq> []" and "\<not> is_digit (hd sep)" and "CHR ''$'' \<notin> set sep"
    and "CHR 0x22 \<notin> set sep" and "b = [] \<or> \<not> is_digit (hd b)"
  shows "0 \<le> n \<Longrightarrow>
         scan_placeholders Plain (Join (placeholders n k) sep @ b)
           = placeholders n k @ scan_placeholders Plain b"
proof (induction k arbitrary: n)
  case 0
  then show ?case by simp
next
  case (Suc k)
  show ?case
  proof (cases k)
    case 0
    then show ?thesis using Suc.prems assms(5) by (simp add: scan_placeholder)
  next
    case (Suc j)
    then obtain y ys where ys: "placeholders (n + 1) k = y # ys"
      by (simp add: placeholders_Suc)
    have rest: "scan_placeholders Plain (Join (placeholders (n + 1) k) sep @ b)
        = placeholders (n + 1) k @ scan_placeholders Plain b"
      using Suc.prems by (intro Suc.IH) simp
    have "scan_placeholders Plain (placeholder n @ (sep @ Join (y # ys) sep @ b))
        = placeholder n # scan_placeholders Plain (sep @ Join (y # ys) sep @ b)"
      using Suc.prems assms(1,2) by (intro scan_placeholder) simp_all
    also have "scan_placeholders Plain (sep @ Join (y # ys) sep @ b)
        = scan_placeholders Plain (Join (y # ys) sep @ b)"
      using assms(3,4) by (rule scan_plain_skip)
    finally show ?thesis using rest by (simp add: placeholders_Suc [of n k] ys)
  qed
qed

lemma scan_quoted_body:
  "scan_placeholders Quoted
     (concat (map (\<lambda>ch. if ch = CHR 0x22 then [CHR 0x22, CHR 0x22] else [ch]) key) @ CHR 0x22 # b)
   = scan_placeholders Plain b"
  by (induction key) auto

lemma scan_QuoteIdentifier:
  "scan_placeholders Plain (QuoteIdentifier key @ b) = scan_placeholders Plain b"
  by (simp add: QuoteIdentifier_def scan_quoted_body)

lemma reads_asI:
  "(\<And>b. b = [] \<or> \<not> is_digit (hd b) \<Longrightarrow>
      scan_placeholders Plain (rest @ b) = ps @ scan_placeholders Plain b) \<Longrightarrow> reads_as rest ps"
  by (simp add: reads_as_def)

lemma reads_asD:
  "reads_as rest ps \<Longrightarrow> b = [] \<or> \<not> is_digit (hd b) \<Longrightarrow>
   scan_placeholders Plain (rest @ b) = ps @ scan_placeholders Plain b"
  unfolding reads_as_def by blast

lemma reads_as_placeholders_of: "reads_as rest ps \<Longrightarrow> placeholders_of rest = ps"
  using reads_asD [of rest ps "[]"] by (simp add: placeholders_of_def)

lemma reads_as_plain:
  "CHR ''$'' \<notin> set a \<Longrightarrow> CHR 0x22 \<notin> set a \<Longrightarrow> reads_as a []"
  by (simp add: reads_as_def scan_plain_skip)

lemma reads_as_after_plain:
  "CHR ''$'' \<notin> set a \<Longrightarrow> CHR 0x22 \<notin> set a \<Longrightarrow> reads_as b ps \<Longrightarrow> reads_as (a @ b) ps"
  by (simp add: reads_as_def scan_plain_skip)

lemma reads_as_append:
  assumes "reads_as a ps" and "reads_as b qs" and "b = [] \<or> \<not> is_digit (hd b)"
  shows "reads_as (a @ b) (ps @ qs)"
proof (rule reads_asI)
  fix t :: string
  assume t: "t = [] \<or> \<not> is_digit (hd t)"
  have "b @ t = [] \<or> \<not> is_digit (hd (b @ t))" using assms(3) t by (cases b) auto
  then have "scan_placeholders Plain (a @ (b @ t)) = ps @ scan_placeholders Plain (b @ t)"
    by (rule reads_asD [OF assms(1)])
  then show "scan_placeholders Plain ((a @ b) @ t) = (ps @ qs) @ scan_placeholders Plain t"
    using reads_asD [OF assms(2) t] by simp
qed

lemma reads_as_placeholder: "0 \<le> n \<Longrightarrow> reads_as (placeholder n) [placeholder n]"
  by (simp add: reads_as_def scan_placeholder)

lemma reads_as_join:
  assumes "0 \<le> n" and "sep \<noteq> []" and "\<not> is_digit (hd sep)" and "CHR ''$'' \<notin> set sep"
    and "CHR 0x22 \<notin> set sep"
  shows "reads_as (Join (placeholders n k) sep) (placeholders n k)"
  using assms by (simp add: reads_as_def scan_join)

lemma reads_as_QuoteIdentifier: "reads_as rest ps \<Longrightarrow> reads_as (QuoteIdentifier key @ rest) ps"
  by (simp add: reads_as_def scan_QuoteIdentifier)

lemma not_digit_simps [simp]:
  "\<not> is_digit CHR '' ''" "\<not> is_digit CHR '')''" "\<not> is_digit CHR '',''"
  by (simp_all add: is_digit_def)

text \<open>
  What \<open>ToSQL\<close> returns, case by case: the column text, or nothing where the fragment
  has no placeholder, and after it a rest that reads as the placeholders from \<open>$n\<close> on.
\<close>

lemma shapeI:
  assumes "r = Inr (lead @ rest, args, n + int k)" and "reads_as rest (placeholders n k)"
    and "length args = k" and "lead = col \<or> lead = [] \<and> args = []"
  shows "\<exists>rest args.
           (r = Inr (col @ rest, args, n + int (length args))
              \<or> r = Inr (rest, args, n + int (length args)) \<and> args = [])
           \<and> length args = k \<and> reads_as rest (placeholders n (length args))"
  using assms by auto

lemma ToSQL_reads:
  assumes ops: "has_operands c" and n1: "1 \<le> n" and fit: "n + int (spec_advance c) < 2 ^ 63"
  shows "\<exists>rest args.
           (ToSQL c col n = Inr (col @ rest, args, n + int (length args))
              \<or> ToSQL c col n = Inr (rest, args, n + int (length args)) \<and> args = [])
           \<and> length args = spec_advance c \<and> reads_as rest (placeholders n (length args))"
proof -
  have lo: "- (2 ^ 63) \<le> n" and n0: "0 \<le> n" using n1 by simp_all
  consider (isin) "Type c = ConditionIn" | (between) "Type c = ConditionBetween"
    | (null) "Type c = ConditionIsNull" | (notnull) "Type c = ConditionIsNotNull"
    | (un) "Type c \<in> {ConditionLike, ConditionGt, ConditionLt, ConditionGte, ConditionLte, ConditionNeq}"
    | (other) "Type c \<notin> {ConditionIn, ConditionBetween, ConditionIsNull, ConditionIsNotNull,
         ConditionLike, ConditionGt, ConditionLt, ConditionGte, ConditionLte, ConditionNeq}"
    by blast
  then show ?thesis
  proof cases
    case isin
    then obtain v0 more where vs: "Values c = v0 # more"
      using ops by (cases "Values c") (auto simp: has_operands_def ConditionType_defs)
    show ?thesis
    proof (cases "\<exists>rv. v0 = VSlice rv")
      case True
      then obtain rv where v0: "v0 = VSlice rv" by blast
      have adv: "spec_advance c = length rv"
        using isin vs v0 by (simp add: spec_advance_def ConditionType_defs)
      show ?thesis
      proof (cases "rv = []")
        case True
        have "ToSQL c col n = Inr ([] @ ''1=0'', [], n + int 0)"
          using isin vs v0 True by (simp add: ToSQL_def)
        moreover have "reads_as ''1=0'' (placeholders n 0)" by (simp add: reads_as_plain)
        ultimately show ?thesis
          unfolding adv True list.size by (rule shapeI) simp_all
      next
        case False
        have fit': "n + int (length rv) < 2 ^ 63" using fit adv by simp
        have "ToSQL c col n =
            Inr (col @ '' IN ('' @ Join (placeholders n (length rv)) '', '' @ '')'', rv,
                 n + int (length rv))"
          using isin vs v0 False in_loop_eq [OF lo fit', of "[]" "[]"]
          by (simp add: ToSQL_def placeholders_def)
        moreover have "reads_as ('' IN ('' @ Join (placeholders n (length rv)) '', '' @ '')'')
            (placeholders n (length rv))"
          using reads_as_after_plain [of "'' IN (''", OF _ _
              reads_as_append [OF reads_as_join [OF n0, of "'', ''" "length rv"]
                reads_as_plain [of "'')''"]]]
          by simp
        ultimately show ?thesis unfolding adv by (rule shapeI) simp_all
      qed
    next
      case False
      have adv: "spec_advance c = 1"
        using isin vs False by (cases v0) (simp_all add: spec_advance_def ConditionType_defs)
      have w: "int64 (n + 1) = n + 1" using lo fit adv by (intro int64_id) auto
      have "ToSQL c col n = Inr (col @ '' IN ('' @ placeholder n @ '')'', [v0], n + int 1)"
        using isin vs False by (cases v0) (simp_all add: ToSQL_def w)
      moreover have "reads_as ('' IN ('' @ placeholder n @ '')'') (placeholders n 1)"
        using reads_as_after_plain [of "'' IN (''", OF _ _
            reads_as_append [OF reads_as_placeholder [OF n0] reads_as_plain [of "'')''"]]]
        by simp
      ultimately show ?thesis unfolding adv by (rule shapeI) simp_all
    qed
  next
    case between
    then obtain v0 v1 more where vs: "Values c = v0 # v1 # more"
      using ops by (cases "Values c"; cases "tl (Values c)") (auto simp: has_operands_def)
    have adv: "spec_advance c = 2"
      using between by (simp add: spec_advance_def ConditionType_defs)
    have w1: "int64 (n + 1) = n + 1" using lo fit adv by (intro int64_id) auto
    have w2: "int64 (n + 2) = n + 2" using lo fit adv by (intro int64_id) auto
    have "ToSQL c col n =
        Inr (col @ '' BETWEEN '' @ Join (placeholders n 2) '' AND '', [v0, v1], n + int 2)"
      using between vs by (simp add: ToSQL_def ConditionType_defs w1 w2 placeholders_2)
    moreover have "reads_as ('' BETWEEN '' @ Join (placeholders n 2) '' AND '') (placeholders n 2)"
      using reads_as_after_plain [of "'' BETWEEN ''", OF _ _
          reads_as_join [OF n0, of "'' AND ''" 2]]
      by simp
    ultimately show ?thesis unfolding adv by (rule shapeI) simp_all
  next
    case null
    have adv: "spec_advance c = 0" using null by (simp add: spec_advance_def)
    have "ToSQL c col n = Inr (col @ '' IS NULL'', [], n + int 0)"
      using null by (simp add: ToSQL_def ConditionType_defs)
    moreover have "reads_as '' IS NULL'' (placeholders n 0)" by (simp add: reads_as_plain)
    ultimately show ?thesis unfolding adv by (rule shapeI) simp_all
  next
    case notnull
    have adv: "spec_advance c = 0" using notnull by (simp add: spec_advance_def)
    have "ToSQL c col n = Inr (col @ '' IS NOT NULL'', [], n + int 0)"
      using notnull by (simp add: ToSQL_def ConditionType_defs)
    moreover have "reads_as '' IS NOT NULL'' (placeholders n 0)" by (simp add: reads_as_plain)
    ultimately show ?thesis unfolding adv by (rule shapeI) simp_all
  next
    case un
    then obtain v0 more where vs: "Values c = v0 # more"
      using ops by (cases "Values c") (auto simp: has_operands_def ConditionType_defs)
    have adv: "spec_advance c = 1"
      using un by (auto simp: spec_advance_def ConditionType_defs)
    have w: "int64 (n + 1) = n + 1" using lo fit adv by (intro int64_id) auto
    have "\<exists>opr. CHR ''$'' \<notin> set opr \<and> CHR 0x22 \<notin> set opr
        \<and> ToSQL c col n = Inr (col @ opr @ placeholder n, [v0], n + int 1)"
      using un vs by (auto simp: ToSQL_def ConditionType_defs w)
    then obtain opr where opr: "CHR ''$'' \<notin> set opr" "CHR 0x22 \<notin> set opr"
      and eq: "ToSQL c col n = Inr (col @ opr @ placeholder n, [v0], n + int 1)"
      by blast
    have "reads_as (opr @ placeholder n) (placeholders n 1)"
      using reads_as_after_plain [OF opr reads_as_placeholder [OF n0]] by simp
    with eq show ?thesis unfolding adv by (rule shapeI) simp_all
  next
    case other
    have adv: "spec_advance c = 0" using other by (simp add: spec_advance_def)
    have "ToSQL c col n = Inr ([] @ [], [], n + int 0)"
      using other by (simp add: ToSQL_def)
    moreover have "reads_as [] (placeholders n 0)" by (simp add: reads_as_plain)
    ultimately show ?thesis unfolding adv by (rule shapeI) simp_all
  qed
qed

subsection \<open>Fragments in one filter\<close>

text \<open>The loop over a map appends to what it is given.\<close>

lemma where_map_acc:
  "where_map m conds0 args0 n =
     (case where_map m [] [] n of
        Inl p \<Rightarrow> Inl p
      | Inr (cs, as, n') \<Rightarrow> Inr (conds0 @ cs, args0 @ as, n'))"
proof (induction m arbitrary: conds0 args0 n)
  case Nil
  then show ?case by simp
next
  case (Cons e m)
  obtain key v where e: "e = (key, v)" by (cases e)
  have step: "where_map m (conds0 @ [sql]) (args0 @ ca) n1 =
      (case where_map m [sql] ca n1 of
         Inl p \<Rightarrow> Inl p
       | Inr (cs, as, n') \<Rightarrow> Inr (conds0 @ cs, args0 @ as, n'))" for sql ca n1
    by (subst Cons.IH [of "conds0 @ [sql]" "args0 @ ca" n1], subst Cons.IH [of "[sql]" ca n1])
       (simp split: sum.splits prod.splits)
  show ?case
    by (cases v) (simp_all add: e step split: sum.splits prod.splits)
qed

lemma Join_Cons: "Join (x # xs) sep = (if xs = [] then x else x @ sep @ Join xs sep)"
  by (cases xs) simp_all

lemma reads_as_nothing: "reads_as [] ps \<Longrightarrow> ps = []"
  using reads_as_placeholders_of [of "[]" ps] by (simp add: placeholders_of_def)

text \<open>One more condition in front of the others, joined by \<open>AND\<close>.\<close>

lemma reads_as_Join_Cons:
  assumes "reads_as cond ps" and "reads_as (Join conds '' AND '') qs"
  shows "reads_as (Join (cond # conds) '' AND '') (ps @ qs)"
proof (cases "conds = []")
  case True
  then have "qs = []" using assms(2) reads_as_nothing by simp
  then show ?thesis using assms(1) True by simp
next
  case False
  have "reads_as ('' AND '' @ Join conds '' AND '') qs"
    using assms(2) by (intro reads_as_after_plain) simp_all
  then have "reads_as (cond @ '' AND '' @ Join conds '' AND '') (ps @ qs)"
    using assms(1) by (intro reads_as_append) simp_all
  then show ?thesis using False by (simp add: Join_Cons)
qed

text \<open>What one entry of the map adds: its condition, its arguments, its advance.\<close>

lemma where_map_entry:
  assumes wf: "well_formed_entries [(key, v)]" and n1: "1 \<le> n"
    and fit: "n + int (entry_advance (key, v)) < 2 ^ 63"
  shows "\<exists>cond a. where_map ((key, v) # m) [] [] n = where_map m [cond] a (n + int (length a))
           \<and> length a = entry_advance (key, v)
           \<and> reads_as cond (placeholders n (length a))"
proof (cases "\<exists>c. v = VCond c")
  case True
  then obtain c where v: "v = VCond c" by blast
  have ops: "has_operands c" using wf by (simp add: well_formed_entries_def v)
  have adv: "entry_advance (key, v) = spec_advance c" by (simp add: entry_advance_def v)
  have fit': "n + int (spec_advance c) < 2 ^ 63" using fit adv by simp
  obtain rest a where r:
      "ToSQL c (QuoteIdentifier key) n = Inr (QuoteIdentifier key @ rest, a, n + int (length a))
       \<or> ToSQL c (QuoteIdentifier key) n = Inr (rest, a, n + int (length a)) \<and> a = []"
    and la: "length a = spec_advance c" and rd: "reads_as rest (placeholders n (length a))"
    using ToSQL_reads [OF ops n1 fit', of "QuoteIdentifier key"] by blast
  from r show ?thesis
  proof
    assume "ToSQL c (QuoteIdentifier key) n = Inr (QuoteIdentifier key @ rest, a, n + int (length a))"
    then have "where_map ((key, v) # m) [] [] n
        = where_map m [QuoteIdentifier key @ rest] a (n + int (length a))"
      by (simp add: v)
    then show ?thesis using la rd adv reads_as_QuoteIdentifier by metis
  next
    assume "ToSQL c (QuoteIdentifier key) n = Inr (rest, a, n + int (length a)) \<and> a = []"
    then have "where_map ((key, v) # m) [] [] n = where_map m [rest] a (n + int (length a))"
      by (simp add: v)
    then show ?thesis using la rd adv by metis
  qed
next
  case False
  have adv: "entry_advance (key, v) = 1"
    using False by (cases v) (simp_all add: entry_advance_def)
  have w: "int64 (n + 1) = n + 1" using n1 fit adv by (intro int64_id) auto
  have "where_map ((key, v) # m) [] [] n
      = where_map m [QuoteIdentifier key @ '' = '' @ placeholder n] [v] (n + int (length [v]))"
    using False by (cases v) (simp_all add: w)
  moreover have "reads_as (QuoteIdentifier key @ '' = '' @ placeholder n) (placeholders n (length [v]))"
    using n1 reads_as_QuoteIdentifier [OF reads_as_after_plain [of "'' = ''", OF _ _
        reads_as_placeholder [of n]]]
    by simp
  ultimately show ?thesis using adv by (metis length_Cons list.size(3) One_nat_def)
qed

lemma where_map_reads:
  "well_formed_entries m \<Longrightarrow> 1 \<le> n \<Longrightarrow> n + int (filter_advance m) < 2 ^ 63 \<Longrightarrow>
   \<exists>conds args. where_map m [] [] n = Inr (conds, args, n + int (length args))
      \<and> length args = filter_advance m
      \<and> reads_as (Join conds '' AND '') (placeholders n (length args))"
proof (induction m arbitrary: n)
  case Nil
  then show ?case by (simp add: filter_advance_def reads_as_plain)
next
  case (Cons e m)
  obtain key v where e: "e = (key, v)" by (cases e)
  have wf1: "well_formed_entries [(key, v)]" and wf: "well_formed_entries m"
    using Cons.prems(1) by (simp_all add: well_formed_entries_def e)
  have total: "filter_advance (e # m) = entry_advance (key, v) + filter_advance m"
    by (simp add: filter_advance_def e)
  have fit1: "n + int (entry_advance (key, v)) < 2 ^ 63" using Cons.prems(3) total by simp
  obtain cond a where first: "where_map ((key, v) # m) [] [] n = where_map m [cond] a (n + int (length a))"
    and la: "length a = entry_advance (key, v)" and rd: "reads_as cond (placeholders n (length a))"
    using where_map_entry [OF wf1 Cons.prems(2) fit1] by blast
  have "1 \<le> n + int (length a)" using Cons.prems(2) by simp
  moreover have "n + int (length a) + int (filter_advance m) < 2 ^ 63"
    using Cons.prems(3) total la by simp
  ultimately obtain conds as where rest:
      "where_map m [] [] (n + int (length a)) = Inr (conds, as, n + int (length a) + int (length as))"
    and las: "length as = filter_advance m"
    and rds: "reads_as (Join conds '' AND '') (placeholders (n + int (length a)) (length as))"
    using Cons.IH [OF wf] by blast
  have "where_map (e # m) [] [] n = Inr (cond # conds, a @ as, n + int (length (a @ as)))"
    using first rest by (subst (asm) where_map_acc) (simp add: e add.assoc)
  moreover have "length (a @ as) = filter_advance (e # m)" using la las total by simp
  moreover have "reads_as (Join (cond # conds) '' AND '') (placeholders n (length (a @ as)))"
    using reads_as_Join_Cons [OF rd rds] by (simp add: placeholders_add)
  ultimately show ?case by blast
qed

text \<open>Arguments that are all maps are handled as one map that holds all their entries.\<close>

lemma where_map_append:
  "where_map (m1 @ m2) conds0 args0 n =
     (case where_map m1 conds0 args0 n of
        Inl p \<Rightarrow> Inl p
      | Inr (cs, as, n') \<Rightarrow> where_map m2 cs as n')"
proof (induction m1 arbitrary: conds0 args0 n)
  case Nil
  then show ?case by simp
next
  case (Cons e m1)
  obtain key v where e: "e = (key, v)" by (cases e)
  show ?case by (cases v) (simp_all add: e Cons.IH split: sum.splits prod.splits)
qed

lemma where_args_maps:
  "where_args (map VMap ms) conds0 args0 n = where_map (concat ms) conds0 args0 n"
proof (induction ms arbitrary: conds0 args0 n)
  case Nil
  then show ?case by simp
next
  case (Cons m ms)
  show ?case by (simp add: where_map_append Cons.IH split: sum.splits prod.splits)
qed

lemma well_formed_maps:
  "well_formed_args (map VMap ms) \<Longrightarrow> well_formed_entries (concat ms)"
  by (induction ms) (simp_all add: well_formed_args_def well_formed_entries_def)

lemma buildWhereClause_reads:
  assumes "well_formed_args (map VMap ms)" and "1 \<le> n"
    and "n + int (filter_advance (concat ms)) < 2 ^ 63"
  shows "\<exists>clause args. buildWhereClause (map VMap ms) n = Inr (clause, args, n + int (length args))
           \<and> placeholders_of clause = placeholders n (length args)
           \<and> length args = filter_advance (concat ms)"
proof -
  obtain conds args where
      w: "where_map (concat ms) [] [] n = Inr (conds, args, n + int (length args))"
    and la: "length args = filter_advance (concat ms)"
    and rd: "reads_as (Join conds '' AND '') (placeholders n (length args))"
    using where_map_reads [OF well_formed_maps [OF assms(1)] assms(2,3)] by blast
  show ?thesis
  proof (cases "conds = []")
    case True
    then have "placeholders n (length args) = []" using rd reads_as_nothing by simp
    moreover have "buildWhereClause (map VMap ms) n = Inr ([], args, n + int (length args))"
      using w True by (simp add: buildWhereClause_def where_args_maps)
    ultimately show ?thesis using la by (simp add: placeholders_of_def)
  next
    case False
    have "reads_as ('' WHERE '' @ Join conds '' AND '') (placeholders n (length args))"
      using rd by (intro reads_as_after_plain) simp_all
    then have "placeholders_of ('' WHERE '' @ Join conds '' AND '') = placeholders n (length args)"
      by (rule reads_as_placeholders_of)
    moreover have "buildWhereClause (map VMap ms) n
        = Inr ('' WHERE '' @ Join conds '' AND '', args, n + int (length args))"
      using w False by (simp add: buildWhereClause_def where_args_maps)
    ultimately show ?thesis using la by blast
  qed
qed

text \<open>The conditions that the ten constructors build have their operands.\<close>

lemma built_have_operands:
  "has_operands (In x) \<and> has_operands (Between lo hi) \<and> has_operands IsNull
   \<and> has_operands IsNotNull \<and> has_operands (Like pattern) \<and> has_operands (Gt x)
   \<and> has_operands (Lt x) \<and> has_operands (Gte x) \<and> has_operands (Lte x)
   \<and> has_operands (Neq x)"
  by (simp add: has_operands_def In_def Between_def IsNull_def IsNotNull_def Like_def Gt_def
      Lt_def Gte_def Lte_def Neq_def ConditionType_defs)

text \<open>
  Claim C7, as the code has it. Let the counter \<open>n\<close> be at least 1. For every condition
  that has its operands and whose advance keeps the counter within a Go \<open>int\<close>, and for
  every column text, \<open>ToSQL\<close> returns normally. The fragment is the column text followed
  by a rest, or the rest alone where there is no argument (the empty \<open>IN\<close>, an unknown
  operator); the placeholders that stand in the rest are exactly \<open>$n\<close>, \<open>$(n+1)\<close>, ...,
  in this order, as many as there are arguments; and the counter returned is \<open>n\<close> plus
  that number, which is \<open>spec_advance\<close>: zero for \<open>IS NULL\<close>, \<open>IS NOT NULL\<close> and the empty
  \<open>IN\<close>, two for \<open>BETWEEN\<close>, the slice length for a non-empty \<open>IN\<close>. So the
  fragments compose: for filter arguments that are maps, whose conditions have their
  operands, with all their advances within a Go \<open>int\<close>, the placeholders that stand in
  the clause that \<open>buildWhereClause\<close> returns are exactly \<open>$n\<close>, \<open>$(n+1)\<close>, ..., in this
  order and without gap or repetition, as many as the arguments returned, and the
  counter has advanced by their number. Every condition that one of the ten
  constructors builds has its operands.
\<close>

theorem ToSQL_placeholders:
  assumes n1: "1 \<le> n"
  shows "(has_operands c \<and> n + int (spec_advance c) < 2 ^ 63 \<longrightarrow>
            (\<exists>rest args.
               (ToSQL c col n = Inr (col @ rest, args, n + int (length args))
                  \<or> ToSQL c col n = Inr (rest, args, n + int (length args)) \<and> args = [])
               \<and> placeholders_of rest = placeholders n (length args)
               \<and> length args = spec_advance c))
       \<and> (well_formed_args (map VMap ms) \<and> n + int (filter_advance (concat ms)) < 2 ^ 63 \<longrightarrow>
            (\<exists>clause args.
               buildWhereClause (map VMap ms) n = Inr (clause, args, n + int (length args))
               \<and> placeholders_of clause = placeholders n (length args)
               \<and> length args = filter_advance (concat ms)))
       \<and> (has_operands (In x) \<and> has_operands (Between lo hi) \<and> has_operands IsNull
            \<and> has_operands IsNotNull \<and> has_operands (Like pattern) \<and> has_operands (Gt x)
            \<and> has_operands (Lt x) \<and> has_operands (Gte x) \<and> has_operands (Lte x)
            \<and> has_operands (Neq x))"
proof -
  have one: "has_operands c \<and> n + int (spec_advance c) < 2 ^ 63 \<longrightarrow>
            (\<exists>rest args.
               (ToSQL c col n = Inr (col @ rest, args, n + int (length args))
                  \<or> ToSQL c col n = Inr (rest, args, n + int (length args)) \<and> args = [])
               \<and> placeholders_of rest = placeholders n (length args)
               \<and> length args = spec_advance c)"
  proof
    assume "has_operands c \<and> n + int (spec_advance c) < 2 ^ 63"
    then obtain rest args where
        "ToSQL c col n = Inr (col @ rest, args, n + int (length args))
           \<or> ToSQL c col n = Inr (rest, args, n + int (length args)) \<and> args = []"
        "length args = spec_advance c" "reads_as rest (placeholders n (length args))"
      using ToSQL_reads [OF _ n1, of c col] by blast
    then show "\<exists>rest args.
               (ToSQL c col n = Inr (col @ rest, args, n + int (length args))
                  \<or> ToSQL c col n = Inr (rest, args, n + int (length args)) \<and> args = [])
               \<and> placeholders_of rest = placeholders n (length args)
               \<and> length args = spec_advance c"
      using reads_as_placeholders_of by blast
  qed
  have many: "well_formed_args (map VMap ms) \<and> n + int (filter_advance (concat ms)) < 2 ^ 63 \<longrightarrow>
            (\<exists>clause args.
               buildWhereClause (map VMap ms) n = Inr (clause, args, n + int (length args))
               \<and> placeholders_of clause = placeholders n (length args)
               \<and> length args = filter_advance (concat ms))"
    using buildWhereClause_reads [OF _ n1] by blast
  show ?thesis by (rule conjI [OF one conjI [OF many built_have_operands]])
qed

text \<open>
  Claim C7 at the counter 9: \<open>age IN ($9, $10, $11)\<close> has three operands and moves the
  counter to 12; and two maps with a comparison, a set and a plain value give one
  clause with the placeholders \<open>$9\<close> to \<open>$12\<close>.
\<close>

theorem ToSQL_placeholders_witness:
  \<open>(1::int) \<le> 9
   \<and> has_operands (In (VSlice [VInt 1, VInt 2, VInt 3]))
   \<and> 9 + int (spec_advance (In (VSlice [VInt 1, VInt 2, VInt 3]))) < 2 ^ 63
   \<and> ToSQL (In (VSlice [VInt 1, VInt 2, VInt 3])) ''age'' 9 =
       Inr (''age'' @ '' IN ($9, $10, $11)'', [VInt 1, VInt 2, VInt 3], 12)
   \<and> placeholders_of '' IN ($9, $10, $11)'' = placeholders 9 3
   \<and> placeholders 9 3 = [''$9'', ''$10'', ''$11'']
   \<and> spec_advance (In (VSlice [VInt 1, VInt 2, VInt 3])) = 3
   \<and> well_formed_args
       (map VMap [[(''age'', VCond (Gt (VInt 20))), (''id'', VCond (In (VSlice [VInt 1, VInt 2])))],
                  [(''name'', VStr ''Al'')]])
   \<and> 9 + int (filter_advance
         (concat [[(''age'', VCond (Gt (VInt 20))), (''id'', VCond (In (VSlice [VInt 1, VInt 2])))],
                  [(''name'', VStr ''Al'')]])) < 2 ^ 63
   \<and> buildWhereClause
       (map VMap [[(''age'', VCond (Gt (VInt 20))), (''id'', VCond (In (VSlice [VInt 1, VInt 2])))],
                  [(''name'', VStr ''Al'')]]) 9
     = Inr ('' WHERE "age" > $9 AND "id" IN ($10, $11) AND "name" = $12'',
            [VInt 20, VInt 1, VInt 2, VStr ''Al''], 13)
   \<and> placeholders_of '' WHERE "age" > $9 AND "id" IN ($10, $11) AND "name" = $12''
     = placeholders 9 4
   \<and> placeholders 9 4 = [''$9'', ''$10'', ''$11'', ''$12'']\<close>
proof -
  let ?c = "In (VSlice [VInt 1, VInt 2, VInt 3])"
  let ?ms = "[[(''age'', VCond (Gt (VInt 20))), (''id'', VCond (In (VSlice [VInt 1, VInt 2])))],
              [(''name'', VStr ''Al'')]]"
  have n1: "(1::int) \<le> 9" by simp
  have ops: "has_operands ?c" by (simp add: has_operands_def In_def ConditionType_defs)
  have adv: "spec_advance ?c = 3" by (simp add: spec_advance_def In_def ConditionType_defs)
  have fit: "9 + int (spec_advance ?c) < 2 ^ 63" by (simp add: adv)
  have wf: "well_formed_args (map VMap ?ms)"
    by (simp add: well_formed_args_def well_formed_entries_def has_operands_def Gt_def In_def
        ConditionType_defs)
  have total: "filter_advance (concat ?ms) = 4"
    by (simp add: filter_advance_def entry_advance_def spec_advance_def Gt_def In_def
        ConditionType_defs)
  have fit': "9 + int (filter_advance (concat ?ms)) < 2 ^ 63" by (simp only: total) simp
  have one: "ToSQL ?c ''age'' 9 = Inr (''age'' @ '' IN ($9, $10, $11)'', [VInt 1, VInt 2, VInt 3], 12)"
    by (simp add: ToSQL_def In_def ConditionType_defs int64_def placeholder_def itoa_def
        decimal.simps digit_def)
  have all: \<open>buildWhereClause (map VMap ?ms) 9
      = Inr ('' WHERE "age" > $9 AND "id" IN ($10, $11) AND "name" = $12'',
             [VInt 20, VInt 1, VInt 2, VStr ''Al''], 13)\<close>
    by (simp add: buildWhereClause_def QuoteIdentifier_def ToSQL_def In_def Gt_def
        ConditionType_defs int64_def placeholder_def itoa_def decimal.simps digit_def)
  have p3: "placeholders 9 3 = [''$9'', ''$10'', ''$11'']"
    by (simp add: placeholders_def placeholder_def itoa_def decimal.simps digit_def
        numeral_3_eq_3)
  have "[0..<4] = [0, 1, 2, Suc 2]" by (simp add: upt_rec)
  then have p4: "placeholders 9 4 = [''$9'', ''$10'', ''$11'', ''$12'']"
    unfolding placeholders_def
    by (simp add: placeholder_def itoa_def decimal.simps digit_def)
  have l3: "Suc (Suc (Suc 0)) = 3" and l4: "Suc (Suc (Suc (Suc 0))) = 4" by simp_all
  note inst = ToSQL_placeholders [OF n1, of ?c "''age''" ?ms]
  obtain rest args where r:
      "ToSQL ?c ''age'' 9 = Inr (''age'' @ rest, args, 9 + int (length args))
         \<or> ToSQL ?c ''age'' 9 = Inr (rest, args, 9 + int (length args)) \<and> args = []"
    and pr: "placeholders_of rest = placeholders 9 (length args)"
    using mp [OF conjunct1 [OF inst] conjI [OF ops fit]] by blast
  have "rest = '' IN ($9, $10, $11)'' \<and> args = [VInt 1, VInt 2, VInt 3]"
    using r unfolding one by auto
  then have first: "placeholders_of '' IN ($9, $10, $11)'' = placeholders 9 3"
    using pr l3 by simp
  obtain clause args' where b:
      "buildWhereClause (map VMap ?ms) 9 = Inr (clause, args', 9 + int (length args'))"
    and pc: "placeholders_of clause = placeholders 9 (length args')"
    using mp [OF conjunct1 [OF conjunct2 [OF inst]] conjI [OF wf fit']] by blast
  have \<open>clause = '' WHERE "age" > $9 AND "id" IN ($10, $11) AND "name" = $12''
      \<and> args' = [VInt 20, VInt 1, VInt 2, VStr ''Al'']\<close>
    using b unfolding all by simp
  then have second: \<open>placeholders_of '' WHERE "age" > $9 AND "id" IN ($10, $11) AND "name" = $12''
      = placeholders 9 4\<close>
    using pc l4 by simp
  show ?thesis
    using n1 ops fit one first p3 adv wf fit' all second p4 by (simp only: simp_thms)
qed


text \<open>
  Claim C7 as stated, for every \<open>Condition\<close> value, every counter and every fragment as
  a whole, fails three times. The fields of \<open>Condition\<close> are exported, and a comparison
  without operand panics at \<open>c.Values[0]\<close> instead of returning. At the largest Go \<open>int\<close>
  the counter wraps around: the placeholder after \<open>$9223372036854775807\<close> is
  \<open>$-9223372036854775808\<close>. And the column text is the caller's, copied as it is: one
  that holds \<open>$5\<close> puts it before the \<open>$1\<close> of the fragment.
\<close>

theorem ToSQL_placeholders_counterexample:
  "ToSQL (Condition ConditionGt []) ''age'' 1 = Inl IndexOutOfRange
   \<and> ToSQL (In (VSlice [VInt 1, VInt 2])) ''age'' 9223372036854775807 =
       Inr (''age IN ($9223372036854775807, $-9223372036854775808)'', [VInt 1, VInt 2],
            - 9223372036854775807)
   \<and> ToSQL (Gt (VInt 1)) ''$5'' 1 = Inr (''$5 > $1'', [VInt 1], 2)
   \<and> placeholders_of ''$5 > $1'' = [''$5'', ''$1'']"
  by (simp add: ToSQL_def In_def Gt_def ConditionType_defs int64_def placeholder_def itoa_def
      decimal.simps digit_def placeholders_of_def is_digit_def)

subsection \<open>One-sided ranges and the empty set\<close>

text \<open>
  Claim C8. For every value \<open>v\<close> other than the nil interface, \<open>Between(nil, v)\<close> is the
  condition \<open>Lte(v)\<close> and \<open>Between(v, nil)\<close> is the condition \<open>Gte(v)\<close>; so for every
  column text and counter their \<open>ToSQL\<close> results (fragment, arguments, counter) agree.
\<close>

theorem Between_one_sided:
  assumes "v \<noteq> VNil"
  shows "Between VNil v = Lte v \<and> Between v VNil = Gte v
       \<and> ToSQL (Between VNil v) col n = ToSQL (Lte v) col n
       \<and> ToSQL (Between v VNil) col n = ToSQL (Gte v) col n"
  using assms by (simp add: Between_def Lte_def Gte_def)

text \<open>Claim C8 at the scenario of the specification: the bounds 30 and 20 on \<open>age\<close>.\<close>

theorem Between_one_sided_witness:
  "VInt 30 \<noteq> VNil
   \<and> Between VNil (VInt 30) = Lte (VInt 30) \<and> Between (VInt 30) VNil = Gte (VInt 30)
   \<and> ToSQL (Between VNil (VInt 30)) ''age'' 1 = ToSQL (Lte (VInt 30)) ''age'' 1
   \<and> ToSQL (Between (VInt 30) VNil) ''age'' 1 = ToSQL (Gte (VInt 30)) ''age'' 1
   \<and> ToSQL (Between VNil (VInt 30)) ''age'' 1 = Inr (''age <= $1'', [VInt 30], 2)"
proof -
  have h: "VInt 30 \<noteq> VNil" by simp
  have "ToSQL (Lte (VInt 30)) ''age'' 1 = Inr (''age <= $1'', [VInt 30], 2)"
    by (simp add: ToSQL_def Lte_def ConditionType_defs int64_def placeholder_def itoa_def
        decimal.simps digit_def)
  then show ?thesis
    using Between_one_sided [OF h, of "''age''" 1] by simp
qed

text \<open>
  Claim C9. For the empty slice, \<open>In\<close> gives through \<open>ToSQL\<close> the fragment \<open>1=0\<close>, which no
  row satisfies, with no argument and the counter unchanged, whatever the column text
  and the counter; the fragment holds no \<open>IN ()\<close>.
\<close>

theorem In_empty_slice:
  "ToSQL (In (VSlice [])) col n = Inr (''1=0'', [], n)"
  by (simp add: ToSQL_def In_def)

section \<open>Properties of the cache\<close>

subsection \<open>The map and the list stay in sync\<close>

text \<open>
  Every method keeps \<open>in_sync\<close>; along the way each lemma gives the keys of the list
  after the call in terms of the keys before.
\<close>

lemma in_sync_New: "in_sync (NewMemoryCache m)"
  by (simp add: in_sync_def keys_def NewMemoryCache_def)

lemma in_sync_Clear: "in_sync (Clear c)"
  by (simp add: in_sync_def keys_def Clear_def)

lemma in_sync_present: "in_sync c \<Longrightarrow> items c k \<noteq> None \<longleftrightarrow> k \<in> set (keys c)"
  by (auto simp: in_sync_def keys_def)

lemma in_sync_dom: "in_sync c \<Longrightarrow> dom (items c) = set (keys c)"
  using in_sync_present by (auto simp: dom_def)

lemma in_sync_card: "in_sync c \<Longrightarrow> card (dom (items c)) = length (evictList c)"
proof -
  assume s: "in_sync c"
  then have "distinct (keys c)" by (simp add: in_sync_def)
  then have "card (set (keys c)) = length (keys c)" by (rule distinct_card)
  then show ?thesis using s by (simp add: in_sync_dom) (simp add: keys_def)
qed

lemma distinct_map_remove1:
  "distinct (map f l) \<Longrightarrow> e \<in> set l \<Longrightarrow> map f (remove1 e l) = removeAll (f e) (map f l)"
proof (induction l)
  case Nil
  then show ?case by simp
next
  case (Cons a l)
  show ?case
  proof (cases "a = e")
    case True
    then show ?thesis using Cons.prems by (simp add: removeAll_id)
  next
    case False
    then have "f a \<noteq> f e" using Cons.prems by force
    then show ?thesis using Cons False by simp
  qed
qed

lemma removeElement_keys:
  "in_sync c \<Longrightarrow> e \<in> set (evictList c) \<Longrightarrow> keys (removeElement c e) = removeAll (Key e) (keys c)"
  by (simp add: removeElement_def keys_def in_sync_def distinct_map_remove1)

lemma in_sync_removeElement:
  assumes "in_sync c" and "e \<in> set (evictList c)"
  shows "in_sync (removeElement c e)"
proof -
  have d: "distinct (map Key (evictList c))" using assms by (simp add: in_sync_def keys_def)
  then have dl: "distinct (evictList c)" by (simp add: distinct_map)
  have k: "keys (removeElement c e) = removeAll (Key e) (keys c)"
    using assms by (rule removeElement_keys)
  have "distinct (keys c)" using assms(1) by (simp add: in_sync_def)
  then have "distinct (keys (removeElement c e))"
    by (simp add: k distinct_removeAll)
  moreover have "\<forall>k e'. items (removeElement c e) k = Some e'
      \<longleftrightarrow> e' \<in> set (evictList (removeElement c e)) \<and> Key e' = k"
  proof (intro allI)
    fix k e'
    have mem: "e' \<in> set (remove1 e (evictList c)) \<longleftrightarrow> e' \<in> set (evictList c) \<and> e' \<noteq> e"
      using dl by simp
    have uniq: "e' \<in> set (evictList c) \<Longrightarrow> Key e' = Key e \<Longrightarrow> e' = e"
      using d assms(2) by (meson distinct_map inj_onD)
    show "items (removeElement c e) k = Some e'
      \<longleftrightarrow> e' \<in> set (evictList (removeElement c e)) \<and> Key e' = k"
      using assms(1) uniq by (auto simp: removeElement_def in_sync_def mem)
  qed
  ultimately show ?thesis by (simp add: in_sync_def)
qed

lemma in_sync_uniq:
  "in_sync c \<Longrightarrow> e \<in> set (evictList c) \<Longrightarrow> e' \<in> set (evictList c) \<Longrightarrow> Key e' = Key e \<Longrightarrow> e' = e"
  by (metis in_sync_def option.inject)

lemma in_sync_lookup: "in_sync c \<Longrightarrow> items c k = Some e \<Longrightarrow> e \<in> set (evictList c) \<and> Key e = k"
  by (simp add: in_sync_def)

lemma assign_front:
  assumes "in_sync c" and "e \<in> set (evictList c)"
  shows "assign e e' (MoveToFront e (evictList c)) = e' # remove1 e (evictList c)"
proof -
  have "distinct (evictList c)" using assms(1) by (simp add: in_sync_def keys_def distinct_map)
  then have "e \<notin> set (remove1 e (evictList c))" by simp
  then have "map (\<lambda>x. if x = e then e' else x) (remove1 e (evictList c)) = remove1 e (evictList c)"
    by (intro map_idI) auto
  then show ?thesis using assms(2) by (simp add: assign_def MoveToFront_def)
qed

text \<open>The state after a \<open>Set\<close> of a key that is present.\<close>

lemma Set_present:
  assumes "in_sync c" and "items c key = Some ent"
  shows "Set c now key v ttl =
           c\<lparr>evictList := ent\<lparr>Value := v, Expiration := int64 (now + ttl)\<rparr> # remove1 ent (evictList c),
             items := (items c)(key \<mapsto> ent\<lparr>Value := v, Expiration := int64 (now + ttl)\<rparr>)\<rparr>"
  using assms in_sync_lookup [OF assms] by (simp add: Set_def Let_def assign_front)

lemma Set_present_keys:
  assumes "in_sync c" and "items c key = Some ent"
  shows "keys (Set c now key v ttl) = key # removeAll key (keys c)"
proof -
  have m: "ent \<in> set (evictList c)" "Key ent = key" using in_sync_lookup [OF assms] by auto
  have "distinct (map Key (evictList c))" using assms(1) by (simp add: in_sync_def keys_def)
  then show ?thesis
    using m by (simp add: Set_present [OF assms] keys_def distinct_map_remove1)
qed

lemma in_sync_Set_present:
  assumes "in_sync c" and "items c key = Some ent"
  shows "in_sync (Set c now key v ttl)"
proof -
  let ?e = "ent\<lparr>Value := v, Expiration := int64 (now + ttl)\<rparr>"
  have m: "ent \<in> set (evictList c)" "Key ent = key" using in_sync_lookup [OF assms] by auto
  have dl: "distinct (evictList c)" using assms(1) by (simp add: in_sync_def keys_def distinct_map)
  have "distinct (keys c)" using assms(1) by (simp add: in_sync_def)
  then have d: "distinct (keys (Set c now key v ttl))"
    by (simp add: Set_present_keys [OF assms] distinct_removeAll)
  have "\<forall>k e. items (Set c now key v ttl) k = Some e
      \<longleftrightarrow> e \<in> set (evictList (Set c now key v ttl)) \<and> Key e = k"
  proof (intro allI)
    fix k e
    have u: "e \<in> set (evictList c) \<Longrightarrow> Key e = key \<Longrightarrow> e = ent"
      using in_sync_uniq [OF assms(1) m(1)] m(2) by simp
    have l: "items c k = Some e \<longleftrightarrow> e \<in> set (evictList c) \<and> Key e = k"
      using assms(1) by (simp add: in_sync_def)
    show "items (Set c now key v ttl) k = Some e
      \<longleftrightarrow> e \<in> set (evictList (Set c now key v ttl)) \<and> Key e = k"
      using m u l dl by (auto simp: Set_present [OF assms])
  qed
  with d show ?thesis by (simp add: in_sync_def)
qed

text \<open>The state after the insertion at the front, before the capacity check.\<close>

lemma in_sync_push:
  assumes "in_sync c" and "items c key = None" and "Key ent = key"
  shows "in_sync (c\<lparr>evictList := ent # evictList c, items := (items c)(key \<mapsto> ent)\<rparr>)"
proof -
  have nk: "key \<notin> set (keys c)" using in_sync_present [OF assms(1), of key] assms(2) by simp
  have l: "\<And>k e. items c k = Some e \<longleftrightarrow> e \<in> set (evictList c) \<and> Key e = k"
    using assms(1) by (simp add: in_sync_def)
  have "distinct (keys c)" using assms(1) by (simp add: in_sync_def)
  then show ?thesis
    using nk assms(3) l by (auto simp: in_sync_def keys_def) (metis image_eqI)
qed

lemma distinct_remove_last:
  "distinct xs \<Longrightarrow> xs \<noteq> [] \<Longrightarrow> removeAll (last xs) xs = butlast xs"
  by (induction xs) (auto simp: removeAll_id)

lemma Set_absent_keys:
  assumes "in_sync c" and "items c key = None"
  shows "keys (Set c now key v ttl) =
           (if maxSize c > 0 \<and> int (length (evictList c)) + 1 > maxSize c
            then butlast (key # keys c) else key # keys c)"
    and "in_sync (Set c now key v ttl)"
proof -
  let ?ent = "\<lparr>Key = key, Value = v, Expiration = int64 (now + ttl)\<rparr>"
  let ?c' = "c\<lparr>evictList := ?ent # evictList c, items := (items c)(key \<mapsto> ?ent)\<rparr>"
  have s': "in_sync ?c'" using assms by (intro in_sync_push) auto
  have k': "keys ?c' = key # keys c" by (simp add: keys_def)
  have d': "distinct (key # keys c)" using s' by (simp add: in_sync_def k' [symmetric])
  have lastmem: "last (evictList ?c') \<in> set (evictList ?c')" by (intro last_in_set) simp
  have ro: "removeOldest ?c' = removeElement ?c' (last (evictList ?c'))"
    by (simp add: removeOldest_def)
  have "Key (last (evictList ?c')) = last (keys ?c')"
    unfolding keys_def by (subst last_map) simp_all
  then have rk: "keys (removeOldest ?c') = butlast (key # keys c)"
    using removeElement_keys [OF s' lastmem] distinct_remove_last [OF d']
    by (simp add: ro k')
  have rs: "in_sync (removeOldest ?c')"
    unfolding ro using s' lastmem by (rule in_sync_removeElement)
  have S: "Set c now key v ttl =
      (if maxSize c > 0 \<and> int (length (evictList c)) + 1 > maxSize c
       then removeOldest ?c' else ?c')"
    using assms(2) by (simp add: Set_def Let_def)
  show "keys (Set c now key v ttl) =
           (if maxSize c > 0 \<and> int (length (evictList c)) + 1 > maxSize c
            then butlast (key # keys c) else key # keys c)"
    unfolding S using rk k' by simp
  show "in_sync (Set c now key v ttl)"
    unfolding S using rs s' by simp
qed

lemma in_sync_Set: "in_sync c \<Longrightarrow> in_sync (Set c now key v ttl)"
  by (cases "items c key") (simp_all add: Set_absent_keys(2) in_sync_Set_present)

lemma Get_keys:
  assumes "in_sync c"
  shows "keys (snd (Get c now key)) =
           (if snd (fst (Get c now key)) then key # removeAll key (keys c)
            else removeAll key (keys c))"
    and "in_sync (snd (Get c now key))"
proof -
  show "keys (snd (Get c now key)) =
           (if snd (fst (Get c now key)) then key # removeAll key (keys c)
            else removeAll key (keys c))"
  proof (cases "items c key")
    case None
    then have "key \<notin> set (keys c)" using in_sync_present [OF assms, of key] by simp
    then show ?thesis using None by (simp add: Get_def removeAll_id)
  next
    case (Some ent)
    have m: "ent \<in> set (evictList c)" "Key ent = key" using in_sync_lookup [OF assms Some] by auto
    have d: "distinct (map Key (evictList c))" using assms by (simp add: in_sync_def keys_def)
    show ?thesis
      using Some m removeElement_keys [OF assms m(1)] distinct_map_remove1 [OF d m(1)]
      by (simp add: Get_def MoveToFront_def) (simp add: keys_def)
  qed
  show "in_sync (snd (Get c now key))"
  proof (cases "items c key")
    case None
    then show ?thesis using assms by (simp add: Get_def)
  next
    case (Some ent)
    have m: "ent \<in> set (evictList c)" "Key ent = key" using in_sync_lookup [OF assms Some] by auto
    have d: "distinct (map Key (evictList c))" using assms by (simp add: in_sync_def keys_def)
    have dl: "distinct (evictList c)" using d by (simp add: distinct_map)
    have mv: "in_sync (c\<lparr>evictList := ent # remove1 ent (evictList c)\<rparr>)"
      using assms m d dl
      by (auto simp: in_sync_def keys_def distinct_map_remove1 distinct_removeAll)
    show ?thesis
      using Some m in_sync_removeElement [OF assms m(1)] mv
      by (simp add: Get_def MoveToFront_def)
  qed
qed

lemma Delete_keys:
  assumes "in_sync c"
  shows "keys (Delete c key) = removeAll key (keys c)" and "in_sync (Delete c key)"
proof -
  show "keys (Delete c key) = removeAll key (keys c)"
  proof (cases "items c key")
    case None
    then have "key \<notin> set (keys c)" using in_sync_present [OF assms, of key] by simp
    then show ?thesis using None by (simp add: Delete_def removeAll_id)
  next
    case (Some ent)
    have m: "ent \<in> set (evictList c)" "Key ent = key" using in_sync_lookup [OF assms Some] by auto
    show ?thesis using Some m removeElement_keys [OF assms m(1)] by (simp add: Delete_def)
  qed
  show "in_sync (Delete c key)"
  proof (cases "items c key")
    case None
    then show ?thesis using assms by (simp add: Delete_def)
  next
    case (Some ent)
    have m: "ent \<in> set (evictList c)" using in_sync_lookup [OF assms Some] by auto
    show ?thesis using Some in_sync_removeElement [OF assms m] by (simp add: Delete_def)
  qed
qed

lemma in_sync_step: "in_sync c \<Longrightarrow> in_sync (step c x)"
proof -
  assume s: "in_sync c"
  obtain now op where x: "x = (now, op)" by (cases x)
  show ?thesis
    unfolding x using s
    by (cases op) (simp_all add: in_sync_Set Get_keys(2) Delete_keys(2) in_sync_Clear)
qed

lemma in_sync_run: "in_sync c \<Longrightarrow> in_sync (run c xs)"
  by (induction xs arbitrary: c) (simp_all add: in_sync_step)

subsection \<open>Capacity\<close>

lemma maxSize_step [simp]: "maxSize (step c x) = maxSize c"
proof -
  obtain now op where x: "x = (now, op)" by (cases x)
  show ?thesis
    unfolding x
    by (cases op)
       (auto simp: Set_def Get_def Delete_def Clear_def removeOldest_def removeElement_def Let_def
             split: option.splits list.splits)
qed

lemma maxSize_run [simp]: "maxSize (run c xs) = maxSize c"
  by (induction xs arbitrary: c) simp_all

lemma length_touch:
  "distinct K \<Longrightarrow> k \<in> set K \<Longrightarrow> length (k # removeAll k K) = length K"
  by (simp add: distinct_remove1_removeAll [symmetric] length_remove1)
     (metis One_nat_def Suc_pred length_pos_if_in_set)

lemma removeAll_as_filter: "removeAll k K = filter (\<lambda>x. x \<noteq> k) K"
  by (induction K) auto

lemma length_removeAll_int:
  "int (length K) \<le> m \<Longrightarrow> int (length (removeAll k K)) \<le> m"
  using length_removeAll_less_eq [of k K] by linarith

lemma capacity_step:
  assumes s: "in_sync c" and m: "0 < maxSize c" and le: "int (length (keys c)) \<le> maxSize c"
  shows "int (length (keys (step c x))) \<le> maxSize c"
proof -
  obtain now op where x: "x = (now, op)" by (cases x)
  have d: "distinct (keys c)" using s by (simp add: in_sync_def)
  have len: "length (evictList c) = length (keys c)" by (simp add: keys_def)
  show ?thesis
  proof (cases op)
    case (OpSet key v ttl)
    show ?thesis
    proof (cases "items c key")
      case None
      show ?thesis
        using le m by (simp add: x OpSet Set_absent_keys(1) [OF s None] len)
    next
      case (Some ent)
      then have "key \<in> set (keys c)" using in_sync_present [OF s, of key] by simp
      then show ?thesis
        using le by (simp only: x OpSet step.simps Set_present_keys [OF s Some] length_touch [OF d])
    qed
  next
    case (OpGet key)
    show ?thesis
    proof (cases "snd (fst (Get c now key))")
      case True
      then have "items c key \<noteq> None" by (auto simp: Get_def split: option.splits)
      then have "key \<in> set (keys c)" using in_sync_present [OF s, of key] by simp
      then show ?thesis
        using le True by (simp only: x OpGet step.simps Get_keys(1) [OF s] length_touch [OF d] if_True)
    next
      case False
      show ?thesis
        using le False by (simp add: x OpGet Get_keys(1) [OF s] length_removeAll_int)
    qed
  next
    case (OpDelete key)
    show ?thesis using le by (simp add: x OpDelete Delete_keys(1) [OF s] length_removeAll_int)
  next
    case OpClear
    then show ?thesis using m by (simp add: x Clear_def keys_def)
  qed
qed

lemma capacity_run:
  "in_sync c \<Longrightarrow> 0 < maxSize c \<Longrightarrow> int (length (keys c)) \<le> maxSize c \<Longrightarrow>
   int (length (keys (run c xs))) \<le> maxSize c"
proof (induction xs arbitrary: c)
  case Nil
  then show ?case by simp
next
  case (Cons x xs)
  have "int (length (keys (run (step c x) xs))) \<le> maxSize (step c x)"
    using Cons.prems by (intro Cons.IH) (simp_all add: in_sync_step capacity_step)
  then show ?case by simp
qed

subsection \<open>Recency order\<close>

text \<open>
  The list stays in the order of the latest touches.
\<close>

lemma filter_removeAll: "filter P (removeAll k xs) = removeAll k (filter P xs)"
  by (induction xs) auto

lemma ordered_touch:
  assumes "ordered K acc"
  shows "ordered (k # removeAll k K) (k # removeAll k acc)"
proof -
  have "filter (\<lambda>x. x \<in> set (k # removeAll k K)) (removeAll k acc)
      = filter (\<lambda>x. x \<in> set K) (removeAll k acc)"
    by (intro filter_cong) auto
  also have "\<dots> = removeAll k (filter (\<lambda>x. x \<in> set K) acc)" by (rule filter_removeAll)
  also have "\<dots> = removeAll k K" using assms by (simp add: ordered_def)
  finally show ?thesis by (simp add: ordered_def)
qed

lemma ordered_remove:
  assumes "ordered K acc"
  shows "ordered (removeAll k K) acc"
proof -
  have "filter (\<lambda>x. x \<in> set (removeAll k K)) acc = filter (\<lambda>x. x \<noteq> k) (filter (\<lambda>x. x \<in> set K) acc)"
    by (simp add: conj_commute)
  also have "\<dots> = removeAll k K" using assms by (simp add: ordered_def removeAll_as_filter)
  finally show ?thesis by (simp add: ordered_def)
qed

lemma ordered_butlast:
  assumes "ordered K acc" and "distinct K" and "K \<noteq> []"
  shows "ordered (butlast K) acc"
  using ordered_remove [OF assms(1), of "last K"] distinct_remove_last [OF assms(2,3)] by simp

lemma ordered_step:
  assumes s: "in_sync c" and o: "ordered (keys c) acc"
  shows "ordered (keys (step c x)) (case touches c x of Some k \<Rightarrow> k # removeAll k acc | None \<Rightarrow> acc)"
proof -
  obtain now op where x: "x = (now, op)" by (cases x)
  have d: "distinct (keys c)" using s by (simp add: in_sync_def)
  show ?thesis
  proof (cases op)
    case (OpSet key v ttl)
    show ?thesis
    proof (cases "items c key")
      case None
      then have nk: "key \<notin> set (keys c)" using in_sync_present [OF s, of key] by simp
      have t: "ordered (key # keys c) (key # removeAll key acc)"
        using ordered_touch [OF o, of key] nk by (simp add: removeAll_id)
      have "distinct (key # keys c)" using d nk by simp
      then have "ordered (butlast (key # keys c)) (key # removeAll key acc)"
        using t by (intro ordered_butlast) simp_all
      then show ?thesis
        using t by (simp add: x OpSet Set_absent_keys(1) [OF s None])
    next
      case (Some ent)
      show ?thesis
        using ordered_touch [OF o, of key] by (simp add: x OpSet Set_present_keys [OF s Some])
    qed
  next
    case (OpGet key)
    show ?thesis
      using ordered_touch [OF o, of key] ordered_remove [OF o, of key]
      by (simp add: x OpGet Get_keys(1) [OF s])
  next
    case (OpDelete key)
    show ?thesis
      using ordered_remove [OF o, of key] by (simp add: x OpDelete Delete_keys(1) [OF s])
  next
    case OpClear
    then show ?thesis by (simp add: x Clear_def keys_def ordered_def)
  qed
qed

lemma ordered_run:
  "in_sync c \<Longrightarrow> ordered (keys c) acc \<Longrightarrow> ordered (keys (run c xs)) (touch_order c acc xs)"
proof (induction xs arbitrary: c acc)
  case Nil
  then show ?case by simp
next
  case (Cons x xs)
  show ?case
    using Cons.prems by (simp del: step.simps touches.simps) (intro Cons.IH in_sync_step ordered_step)
qed

lemma least_recently_touched_last:
  assumes s: "in_sync c" and o: "ordered (keys c) order" and ne: "evictList c \<noteq> []"
  shows "least_recently_touched c order = Key (last (evictList c))"
proof -
  have "filter (\<lambda>k. items c k \<noteq> None) order = filter (\<lambda>k. k \<in> set (keys c)) order"
    using in_sync_present [OF s] by (intro filter_cong) auto
  also have "\<dots> = keys c" using o by (simp add: ordered_def)
  finally show ?thesis using ne by (simp add: least_recently_touched_def keys_def last_map)
qed

subsection \<open>Eviction\<close>

lemma distinct_remove1_last: "distinct l \<Longrightarrow> l \<noteq> [] \<Longrightarrow> remove1 (last l) l = butlast l"
  by (induction l) auto

lemma Set_evicts:
  assumes s: "in_sync c" and a: "items c k = None" and m: "0 < maxSize c"
    and full: "maxSize c < int (length (evictList c)) + 1"
  shows "evictList (Set c now k v ttl) =
           \<lparr>Key = k, Value = v, Expiration = int64 (now + ttl)\<rparr> # butlast (evictList c)"
    and "items (Set c now k v ttl) =
           ((items c)(k \<mapsto> \<lparr>Key = k, Value = v, Expiration = int64 (now + ttl)\<rparr>))
             (Key (last (evictList c)) := None)"
    and "Key (last (evictList c)) \<noteq> k" and "items c (Key (last (evictList c))) \<noteq> None"
proof -
  let ?ent = "\<lparr>Key = k, Value = v, Expiration = int64 (now + ttl)\<rparr>"
  have ne: "evictList c \<noteq> []" using m full by auto
  then have lm: "last (evictList c) \<in> set (evictList c)" by simp
  then have "Key (last (evictList c)) \<in> set (keys c)" by (simp add: keys_def)
  then show pres: "items c (Key (last (evictList c))) \<noteq> None"
    using in_sync_present [OF s] by simp
  then show neq: "Key (last (evictList c)) \<noteq> k" using a by auto
  have dl: "distinct (evictList c)" using s by (simp add: in_sync_def keys_def distinct_map)
  have "Key ?ent \<noteq> Key (last (evictList c))" using neq by simp
  then have "?ent \<noteq> last (evictList c)" by metis
  then have r: "remove1 (last (evictList c)) (?ent # evictList c) = ?ent # butlast (evictList c)"
    using distinct_remove1_last [OF dl ne] by simp
  have S: "Set c now k v ttl =
      removeOldest (c\<lparr>evictList := ?ent # evictList c, items := (items c)(k \<mapsto> ?ent)\<rparr>)"
    using a m full by (simp add: Set_def Let_def)
  show "evictList (Set c now k v ttl) = ?ent # butlast (evictList c)"
    using ne r by (simp add: S removeOldest_def removeElement_def)
  show "items (Set c now k v ttl) = ((items c)(k \<mapsto> ?ent))(Key (last (evictList c)) := None)"
    using ne by (simp add: S removeOldest_def removeElement_def)
qed

lemma Set_no_eviction:
  assumes a: "items c k = None" and room: "int (length (evictList c)) + 1 \<le> maxSize c"
  shows "items (Set c now k v ttl) =
           (items c)(k \<mapsto> \<lparr>Key = k, Value = v, Expiration = int64 (now + ttl)\<rparr>)"
  using assms by (simp add: Set_def Let_def)

lemmas cache_defs =
  NewMemoryCache_def Set_def Get_def Delete_def Clear_def removeOldest_def removeElement_def
  MoveToFront_def assign_def int64_def Let_def

text \<open>
  Claim C1. Let \<open>c\<close> be the cache that any sequence of \<open>Set\<close>, \<open>Get\<close>, \<open>Delete\<close> and
  \<open>Clear\<close> calls leaves, starting from the empty cache of capacity \<open>m > 0\<close>. Then \<open>c\<close>
  holds at most \<open>m\<close> entries, as many as the map has keys. A \<open>Set\<close> of a key that is not
  present and that would push the count past \<open>m\<close> puts the new entry at the front and
  removes exactly one entry, the last of the list, whose key is the least recently
  touched of the keys present (touched by a \<open>Set\<close> or by a \<open>Get\<close> that found it unexpired).
  A \<open>Set\<close> of a new key with room left removes nothing, and a \<open>Set\<close> of a key that is
  present leaves the set of keys and the number of entries as they were.
\<close>

theorem capacity_and_lru:
  assumes m: "0 < m" and c: "c = run (NewMemoryCache m) ops"
  shows "int (length (evictList c)) \<le> m
       \<and> card (dom (items c)) = length (evictList c)
       \<and> (items c k = None \<and> m < int (length (evictList c)) + 1 \<longrightarrow>
            evictList (Set c now k v ttl) =
              \<lparr>Key = k, Value = v, Expiration = int64 (now + ttl)\<rparr> # butlast (evictList c)
            \<and> dom (items (Set c now k v ttl)) = insert k (dom (items c)) - {Key (last (evictList c))}
            \<and> Key (last (evictList c)) \<in> dom (items c)
            \<and> Key (last (evictList c)) =
                least_recently_touched c (touch_order (NewMemoryCache m) [] ops))
       \<and> (items c k = None \<and> int (length (evictList c)) + 1 \<le> m \<longrightarrow>
            dom (items (Set c now k v ttl)) = insert k (dom (items c)))
       \<and> (items c k \<noteq> None \<longrightarrow>
            dom (items (Set c now k v ttl)) = dom (items c)
            \<and> length (evictList (Set c now k v ttl)) = length (evictList c))"
proof -
  have s0: "in_sync (NewMemoryCache m :: 'a MemoryCache)" by (rule in_sync_New)
  have s: "in_sync c" unfolding c using s0 by (rule in_sync_run)
  have ms: "maxSize c = m" by (simp add: c NewMemoryCache_def)
  have "int (length (keys c)) \<le> maxSize (NewMemoryCache m :: 'a MemoryCache)"
    unfolding c using s0 m by (intro capacity_run) (simp_all add: NewMemoryCache_def keys_def)
  then have cap: "int (length (evictList c)) \<le> m" by (simp add: keys_def NewMemoryCache_def)
  have card: "card (dom (items c)) = length (evictList c)" using s by (rule in_sync_card)
  have o: "ordered (keys c) (touch_order (NewMemoryCache m) [] ops)"
    unfolding c using s0 by (intro ordered_run) (simp_all add: ordered_def keys_def NewMemoryCache_def)
  have evict: "evictList (Set c now k v ttl) =
              \<lparr>Key = k, Value = v, Expiration = int64 (now + ttl)\<rparr> # butlast (evictList c)
            \<and> dom (items (Set c now k v ttl)) = insert k (dom (items c)) - {Key (last (evictList c))}
            \<and> Key (last (evictList c)) \<in> dom (items c)
            \<and> Key (last (evictList c)) =
                least_recently_touched c (touch_order (NewMemoryCache m) [] ops)"
    if a: "items c k = None" and full: "m < int (length (evictList c)) + 1"
  proof -
    have m': "0 < maxSize c" and full': "maxSize c < int (length (evictList c)) + 1"
      using m full ms by simp_all
    have ne: "evictList c \<noteq> []" using m full by auto
    note E = Set_evicts(1,2) [OF s a m' full', of now v ttl]
    note F = Set_evicts(3,4) [OF s a m' full']
    have "dom (items (Set c now k v ttl)) = insert k (dom (items c)) - {Key (last (evictList c))}"
      using F(1) by (auto simp: E(2) split: if_splits)
    moreover have "Key (last (evictList c)) \<in> dom (items c)" using F(2) by auto
    ultimately show ?thesis
      using E(1) least_recently_touched_last [OF s o ne] by simp
  qed
  have room: "dom (items (Set c now k v ttl)) = insert k (dom (items c))"
    if a: "items c k = None" and r: "int (length (evictList c)) + 1 \<le> m"
    using Set_no_eviction [OF a, of now v ttl] r ms by simp
  have present: "dom (items (Set c now k v ttl)) = dom (items c)
            \<and> length (evictList (Set c now k v ttl)) = length (evictList c)"
    if p: "items c k \<noteq> None"
  proof -
    obtain ent where e: "items c k = Some ent" using p by auto
    have d: "distinct (keys c)" using s by (simp add: in_sync_def)
    have "k \<in> set (keys c)" using in_sync_present [OF s, of k] p by simp
    then have "length (keys (Set c now k v ttl)) = length (keys c)"
      by (simp only: Set_present_keys [OF s e] length_touch [OF d])
    moreover have "dom (items (Set c now k v ttl)) = dom (items c)"
      using e by (auto simp: Set_present [OF s e])
    ultimately show ?thesis by (simp add: keys_def)
  qed
  show ?thesis using cap card evict room present by blast
qed

text \<open>
  Claim C1 at the recency scenario of the specification: capacity 2, \<open>Set(a)\<close>, \<open>Set(b)\<close>,
  \<open>Get(a)\<close>; now \<open>b\<close> is the least recently touched, and \<open>Set(c)\<close> evicts \<open>b\<close>, not \<open>a\<close>.
\<close>

theorem capacity_and_lru_witness:
  "(0::int) < 2
   \<and> evictList (run (NewMemoryCache 2)
         [(0, OpSet ''a'' ''1'' 10), (1, OpSet ''b'' ''2'' 10), (2, OpGet ''a'')])
       = [\<lparr>Key = ''a'', Value = ''1'', Expiration = 10\<rparr>, \<lparr>Key = ''b'', Value = ''2'', Expiration = 11\<rparr>]
   \<and> items (run (NewMemoryCache 2)
         [(0, OpSet ''a'' ''1'' 10), (1, OpSet ''b'' ''2'' 10), (2, OpGet ''a'')]) ''c'' = None
   \<and> least_recently_touched (run (NewMemoryCache 2)
         [(0, OpSet ''a'' ''1'' 10), (1, OpSet ''b'' ''2'' 10), (2, OpGet ''a'')])
        (touch_order (NewMemoryCache 2) []
         [(0, OpSet ''a'' ''1'' 10), (1, OpSet ''b'' ''2'' 10), (2, OpGet ''a'')]) = ''b''
   \<and> evictList (Set (run (NewMemoryCache 2)
         [(0, OpSet ''a'' ''1'' 10), (1, OpSet ''b'' ''2'' 10), (2, OpGet ''a'')]) 3 ''c'' ''3'' 10)
       = [\<lparr>Key = ''c'', Value = ''3'', Expiration = 13\<rparr>, \<lparr>Key = ''a'', Value = ''1'', Expiration = 10\<rparr>]
   \<and> dom (items (Set (run (NewMemoryCache 2)
         [(0, OpSet ''a'' ''1'' 10), (1, OpSet ''b'' ''2'' 10), (2, OpGet ''a'')]) 3 ''c'' ''3'' 10))
       = {''c'', ''a''}"
proof -
  let ?ops = "[(0, OpSet ''a'' ''1'' 10), (1, OpSet ''b'' ''2'' 10), (2::int, OpGet ''a'')]"
  let ?c = "run (NewMemoryCache 2) ?ops"
  have m: "(0::int) < 2" by simp
  have l: "evictList ?c =
      [\<lparr>Key = ''a'', Value = ''1'', Expiration = 10\<rparr>, \<lparr>Key = ''b'', Value = ''2'', Expiration = 11\<rparr>]"
    by (simp add: cache_defs)
  have a: "items ?c ''c'' = None" by (simp add: cache_defs)
  have d: "dom (items ?c) = {''a'', ''b''}" by (auto simp: cache_defs split: if_splits)
  have full: "2 < int (length (evictList ?c)) + 1" by (simp only: l) simp
  have "int64 (3 + 10) = 13" by (simp add: int64_def)
  then show ?thesis
    using capacity_and_lru [OF m refl, of ?ops "''c''" 3 "''3''" 10] a full l d by auto
qed



subsection \<open>Expiration\<close>

lemma Set_stores:
  assumes s: "in_sync c"
  shows "\<exists>e. items (Set c now k v ttl) k = Some e \<and> Value e = v \<and> Expiration e = int64 (now + ttl)"
proof (cases "items c k")
  case None
  show ?thesis
  proof (cases "0 < maxSize c \<and> maxSize c < int (length (evictList c)) + 1")
    case True
    then show ?thesis
      using Set_evicts(2) [OF s None, of now v ttl] Set_evicts(3) [OF s None] by simp
  next
    case False
    then show ?thesis using None by (auto simp: Set_def Let_def)
  qed
next
  case (Some ent)
  then show ?thesis by (simp add: Set_present [OF s Some])
qed

lemma Get_other_items:
  assumes s: "in_sync c" and "key \<noteq> k"
  shows "items (snd (Get c now key)) k = items c k"
proof (cases "items c key")
  case None
  then show ?thesis by (simp add: Get_def)
next
  case (Some ent)
  then show ?thesis
    using in_sync_lookup [OF s Some] assms(2) by (simp add: Get_def removeElement_def)
qed

lemma Get_live_items:
  assumes "items c k = Some e" and "\<not> now > Expiration e"
  shows "items (snd (Get c now k)) = items c" and "fst (Get c now k) = (Value e, True)"
  using assms by (simp_all add: Get_def)

lemma Get_expired:
  assumes s: "in_sync c" and "items c k = Some e" and "now > Expiration e"
  shows "items (snd (Get c now k)) k = None" and "fst (Get c now k) = (nil, False)"
  using assms in_sync_lookup [OF s assms(2)] by (simp_all add: Get_def removeElement_def)

lemma Get_absent:
  assumes "items c k = None"
  shows "snd (Get c now k) = c" and "fst (Get c now k) = (nil, False)"
  using assms by (simp_all add: Get_def)

text \<open>The keys that the specification keeps are the keys of the list.\<close>

lemma held_after_keys:
  assumes s: "in_sync c"
  shows "keys (step c x) = held_after (maxSize c) (keys c) (snd x) (get_found c x)"
proof -
  obtain now op where x: "x = (now, op)" by (cases x)
  have len: "length (evictList c) = length (keys c)" by (simp add: keys_def)
  show ?thesis
  proof (cases op)
    case (OpSet key v ttl)
    show ?thesis
    proof (cases "items c key")
      case None
      then have "key \<notin> set (keys c)" using in_sync_present [OF s] by blast
      then show ?thesis
        using Set_absent_keys(1) [OF s None, of now v ttl] by (simp add: x OpSet len)
    next
      case (Some ent)
      then have "key \<in> set (keys c)" using in_sync_present [OF s] by blast
      then show ?thesis using Set_present_keys [OF s Some, of now v ttl] by (simp add: x OpSet)
    qed
  next
    case (OpGet key)
    then show ?thesis using Get_keys(1) [OF s, of now key] by (simp add: x)
  next
    case (OpDelete key)
    then show ?thesis using Delete_keys(1) [OF s, of key] by (simp add: x)
  next
    case OpClear
    then show ?thesis by (simp add: x Clear_def keys_def)
  qed
qed

lemma run_append: "run c (xs @ ys) = run (run c xs) ys"
  by (induction xs arbitrary: c) simp_all

lemma held_keys_run: "in_sync c \<Longrightarrow> held_keys c (keys c) xs = keys (run c xs)"
proof (induction xs arbitrary: c)
  case Nil
  then show ?case by simp
next
  case (Cons x xs)
  have "held_keys (step c x) (keys (step c x)) xs = keys (run (step c x) xs)"
    using Cons.prems by (intro Cons.IH in_sync_step)
  then show ?case using held_after_keys [OF Cons.prems, of x] by simp
qed

text \<open>A \<open>Set\<close> or a \<open>Delete\<close> of another key leaves the entry, unless the \<open>Set\<close> evicts it.\<close>

lemma Set_other_items:
  assumes s: "in_sync c" and other: "key \<noteq> k"
    and stays: "\<not> (items c key = None \<and> 0 < maxSize c
                  \<and> maxSize c < int (length (evictList c)) + 1 \<and> Key (last (evictList c)) = k)"
  shows "items (Set c now key v ttl) k = items c k"
proof (cases "items c key")
  case (Some ent)
  then show ?thesis using other by (simp add: Set_present [OF s Some])
next
  case None
  show ?thesis
  proof (cases "0 < maxSize c \<and> maxSize c < int (length (evictList c)) + 1")
    case True
    then have "Key (last (evictList c)) \<noteq> k" using stays None by simp
    then show ?thesis
      using Set_evicts(2) [OF s None, of now v ttl] True other by simp
  next
    case False
    then show ?thesis using None other by (auto simp: Set_def Let_def)
  qed
qed

lemma Delete_other_items:
  assumes s: "in_sync c" and other: "key \<noteq> k"
  shows "items (Delete c key) k = items c k"
proof (cases "items c key")
  case None
  then show ?thesis by (simp add: Delete_def)
next
  case (Some ent)
  then show ?thesis
    using in_sync_lookup [OF s Some] other by (simp add: Delete_def removeElement_def)
qed

lemma unaffected_step:
  assumes s: "in_sync c" and na: "\<not> affects k (maxSize c) (keys c) op"
    and ng: "\<forall>key. op \<noteq> OpGet key"
  shows "items (step c (now, op)) k = items c k"
proof (cases op)
  case (OpSet key v ttl)
  have other: "key \<noteq> k" using na by (simp add: OpSet)
  have "\<not> (items c key = None \<and> 0 < maxSize c
          \<and> maxSize c < int (length (evictList c)) + 1 \<and> Key (last (evictList c)) = k)"
  proof
    assume a: "items c key = None \<and> 0 < maxSize c
          \<and> maxSize c < int (length (evictList c)) + 1 \<and> Key (last (evictList c)) = k"
    then have ne: "evictList c \<noteq> []" by auto
    then have "last (keys c) = k" using a by (simp add: keys_def last_map)
    moreover have "key \<notin> set (keys c)" using a in_sync_present [OF s] by blast
    moreover have "length (keys c) = length (evictList c)" by (simp add: keys_def)
    ultimately show False using na a by (simp add: OpSet)
  qed
  then show ?thesis using Set_other_items [OF s other] by (simp add: OpSet)
next
  case (OpGet key)
  then show ?thesis using ng by simp
next
  case (OpDelete key)
  then have "key \<noteq> k" using na by simp
  then show ?thesis using Delete_other_items [OF s] by (simp add: OpDelete)
next
  case OpClear
  then show ?thesis using na by simp
qed

text \<open>An entry that no operation affects and no \<open>Get\<close> finds expired stays as it is.\<close>

lemma unaffected_keeps:
  "in_sync c \<Longrightarrow> items c k = Some e \<Longrightarrow> unaffected k c (keys c) xs \<Longrightarrow>
   \<forall>(t, x) \<in> set xs. t \<le> Expiration e \<Longrightarrow> items (run c xs) k = Some e"
proof (induction xs arbitrary: c)
  case Nil
  then show ?case by simp
next
  case (Cons x xs)
  obtain now op where x: "x = (now, op)" by (cases x)
  have t: "now \<le> Expiration e" using Cons.prems(4) by (simp add: x)
  have na: "\<not> affects k (maxSize c) (keys c) op" using Cons.prems(3) by (simp add: x)
  have un: "unaffected k (step c x) (keys (step c x)) xs"
    using Cons.prems(3) held_after_keys [OF Cons.prems(1), of x] by simp
  have "items (step c x) k = Some e"
  proof (cases "\<exists>key. op = OpGet key")
    case True
    then obtain key where OpGet: "op = OpGet key" by blast
    show ?thesis
    proof (cases "key = k")
      case True
      then show ?thesis
        using Get_live_items(1) [OF Cons.prems(2), of now] t Cons.prems(2) by (simp add: x OpGet)
    next
      case False
      then show ?thesis
        using Get_other_items [OF Cons.prems(1) False, of now] Cons.prems(2) by (simp add: x OpGet)
    qed
  next
    case False
    then show ?thesis
      using unaffected_step [OF Cons.prems(1) na, of now] Cons.prems(2) by (simp add: x)
  qed
  moreover have "in_sync (step c x)" using Cons.prems(1) by (rule in_sync_step)
  moreover have "\<forall>(t, x) \<in> set xs. t \<le> Expiration e" using Cons.prems(4) by simp
  ultimately have "items (run (step c x) xs) k = Some e" using un by (intro Cons.IH)
  then show ?case by simp
qed

text \<open>Without a \<open>Set\<close> of the key, its entry keeps its expiration time until it goes.\<close>

lemma unaffected_expiration:
  "in_sync c \<Longrightarrow> (case items c k of None \<Rightarrow> True | Some e \<Rightarrow> Expiration e = E) \<Longrightarrow>
   unaffected k c (keys c) xs \<Longrightarrow>
   (case items (run c xs) k of None \<Rightarrow> True | Some e \<Rightarrow> Expiration e = E)"
proof (induction xs arbitrary: c)
  case Nil
  then show ?case by simp
next
  case (Cons x xs)
  obtain now op where x: "x = (now, op)" by (cases x)
  have na: "\<not> affects k (maxSize c) (keys c) op" using Cons.prems(3) by (simp add: x)
  have un: "unaffected k (step c x) (keys (step c x)) xs"
    using Cons.prems(3) held_after_keys [OF Cons.prems(1), of x] by simp
  have "case items (step c x) k of None \<Rightarrow> True | Some e \<Rightarrow> Expiration e = E"
  proof (cases "\<exists>key. op = OpGet key")
    case True
    then obtain key where OpGet: "op = OpGet key" by blast
    show ?thesis
    proof (cases "key = k")
      case True
      show ?thesis
      proof (cases "items c k")
        case None
        then show ?thesis using Get_absent(1) [OF None, of now] by (simp add: x OpGet True)
      next
        case (Some e)
        show ?thesis
        proof (cases "now > Expiration e")
          case True
          then show ?thesis
            using Get_expired(1) [OF Cons.prems(1) Some True] by (simp add: x OpGet \<open>key = k\<close>)
        next
          case False
          then show ?thesis
            using Get_live_items(1) [OF Some False] Cons.prems(2) by (simp add: x OpGet \<open>key = k\<close>)
        qed
      qed
    next
      case False
      then show ?thesis
        using Get_other_items [OF Cons.prems(1) False, of now] Cons.prems(2) by (simp add: x OpGet)
    qed
  next
    case False
    then show ?thesis
      using unaffected_step [OF Cons.prems(1) na, of now] Cons.prems(2) by (simp add: x)
  qed
  moreover have "in_sync (step c x)" using Cons.prems(1) by (rule in_sync_step)
  ultimately have "case items (run (step c x) xs) k of None \<Rightarrow> True | Some e \<Rightarrow> Expiration e = E"
    using un by (intro Cons.IH)
  then show ?case by simp
qed

text \<open>
  Claim C2, as the code has it. Let the cache be in any state that a sequence of calls
  has left, and let \<open>Set(k, v, ttl)\<close> run at the clock reading \<open>t0\<close>, where the expiration
  instant \<open>t0 + ttl\<close> is within an \<open>int64\<close> of nanoseconds. Let calls follow, none of
  them later than the clock reading \<open>t1\<close>, of which none affects \<open>k\<close>: none is a \<open>Set\<close>
  of \<open>k\<close>, a \<open>Delete\<close> of \<open>k\<close> or a \<open>Clear\<close>, and none is a \<open>Set\<close> that evicts \<open>k\<close>, where
  \<open>held\<close> lists the keys that the specification holds after the \<open>Set\<close>. Then \<open>Get(k)\<close> at
  \<open>t1\<close> returns \<open>(v, true)\<close>, with \<open>v\<close> the very slice that was stored, when
  \<open>t1 - t0 < ttl\<close>; and when \<open>t1 - t0 > ttl\<close> it returns not-found, and afterwards neither
  the map nor the list holds an entry of \<open>k\<close>.
\<close>

theorem expiration:
  assumes c: "c = run (NewMemoryCache m) ops0"
    and fit: "- (2 ^ 63) \<le> t0 + ttl \<and> t0 + ttl < 2 ^ 63"
    and held: "held = held_keys (NewMemoryCache m) [] (ops0 @ [(t0, OpSet k v ttl)])"
    and c2: "c2 = run (Set c t0 k v ttl) ops"
    and un: "unaffected k (Set c t0 k v ttl) held ops"
    and times: "\<forall>(t, x) \<in> set ops. t \<le> t1"
  shows "(t1 - t0 < ttl \<longrightarrow> fst (Get c2 t1 k) = (v, True))
       \<and> (ttl < t1 - t0 \<longrightarrow>
            fst (Get c2 t1 k) = (nil, False)
            \<and> items (snd (Get c2 t1 k)) k = None
            \<and> k \<notin> Key ` set (evictList (snd (Get c2 t1 k))))"
proof -
  have s0: "in_sync (NewMemoryCache m :: 'a MemoryCache)" by (rule in_sync_New)
  have s: "in_sync c" unfolding c using s0 by (rule in_sync_run)
  have s1: "in_sync (Set c t0 k v ttl)" using s by (rule in_sync_Set)
  have s2: "in_sync c2" unfolding c2 using s1 by (rule in_sync_run)
  have "keys (NewMemoryCache m :: 'a MemoryCache) = []" by (simp add: keys_def NewMemoryCache_def)
  then have "held = keys (run (NewMemoryCache m) (ops0 @ [(t0, OpSet k v ttl)]))"
    unfolding held using held_keys_run [OF s0, of "ops0 @ [(t0, OpSet k v ttl)]"] by simp
  then have h: "held = keys (Set c t0 k v ttl)" by (simp add: run_append c)
  have un': "unaffected k (Set c t0 k v ttl) (keys (Set c t0 k v ttl)) ops" using un h by simp
  have w: "int64 (t0 + ttl) = t0 + ttl" using fit by (intro int64_id) auto
  obtain e where e: "items (Set c t0 k v ttl) k = Some e" "Value e = v" "Expiration e = t0 + ttl"
    using Set_stores [OF s, of t0 k v ttl] w by auto
  have early: "fst (Get c2 t1 k) = (v, True)" if "t1 - t0 < ttl"
  proof -
    have "\<forall>(t, x) \<in> set ops. t \<le> Expiration e" using times that e(3) by fastforce
    then have "items c2 k = Some e" unfolding c2 using s1 e(1) un' by (intro unaffected_keeps)
    moreover have "\<not> t1 > Expiration e" using that e(3) by simp
    ultimately show ?thesis using Get_live_items(2) [of c2 k e t1] e(2) by simp
  qed
  have late: "fst (Get c2 t1 k) = (nil, False) \<and> items (snd (Get c2 t1 k)) k = None
            \<and> k \<notin> Key ` set (evictList (snd (Get c2 t1 k)))" if "ttl < t1 - t0"
  proof -
    have q: "case items c2 k of None \<Rightarrow> True | Some e \<Rightarrow> Expiration e = t0 + ttl"
      unfolding c2 using s1 un' e by (intro unaffected_expiration) simp_all
    have r: "fst (Get c2 t1 k) = (nil, False) \<and> items (snd (Get c2 t1 k)) k = None"
    proof (cases "items c2 k")
      case None
      then show ?thesis using Get_absent [OF None, of t1] by simp
    next
      case (Some e')
      then have "t1 > Expiration e'" using q that by simp
      then show ?thesis using Get_expired [OF s2 Some] by simp
    qed
    have "in_sync (snd (Get c2 t1 k))" using s2 by (rule Get_keys(2))
    then have "k \<notin> set (keys (snd (Get c2 t1 k)))" using r in_sync_present by blast
    then show ?thesis using r by (simp add: keys_def)
  qed
  show ?thesis using early late by blast
qed

text \<open>
  Claim C2 at capacity 2: \<open>Set(k, v, 50)\<close> at 100 into a cache that holds \<open>a\<close>, then a
  \<open>Set\<close> of the new key \<open>x\<close> (which evicts \<open>a\<close>, the least recently used, and not \<open>k\<close>), a
  \<open>Get(k)\<close> and a \<open>Delete\<close> of \<open>x\<close>. \<open>Get(k)\<close> at 140 finds \<open>v\<close>; \<open>Get(k)\<close> at 151 finds
  nothing and removes the entry.
\<close>

theorem expiration_witness:
  "- (2 ^ 63) \<le> (100::int) + 50 \<and> (100::int) + 50 < 2 ^ 63
   \<and> held_keys (NewMemoryCache 2) [] ([(0, OpSet ''a'' ''1'' 1000)] @ [(100, OpSet ''k'' ''v'' 50)])
       = [''k'', ''a'']
   \<and> unaffected ''k'' (Set (run (NewMemoryCache 2) [(0, OpSet ''a'' ''1'' 1000)]) 100 ''k'' ''v'' 50)
        [''k'', ''a'']
        [(110, OpSet ''x'' ''1'' 5), (120, OpGet ''k''), (130, OpDelete ''x'')]
   \<and> fst (Get (run (Set (run (NewMemoryCache 2) [(0, OpSet ''a'' ''1'' 1000)]) 100 ''k'' ''v'' 50)
              [(110, OpSet ''x'' ''1'' 5), (120, OpGet ''k''), (130, OpDelete ''x'')]) 140 ''k'')
       = (''v'', True)
   \<and> fst (Get (run (Set (run (NewMemoryCache 2) [(0, OpSet ''a'' ''1'' 1000)]) 100 ''k'' ''v'' 50)
              [(110, OpSet ''x'' ''1'' 5), (120, OpGet ''k''), (130, OpDelete ''x'')]) 151 ''k'')
       = ([], False)
   \<and> items (snd (Get (run (Set (run (NewMemoryCache 2) [(0, OpSet ''a'' ''1'' 1000)]) 100 ''k'' ''v'' 50)
              [(110, OpSet ''x'' ''1'' 5), (120, OpGet ''k''), (130, OpDelete ''x'')]) 151 ''k'')) ''k''
       = None"
proof -
  let ?before = "[(0::int, OpSet ''a'' ''1'' 1000)]"
  let ?ops = "[(110::int, OpSet ''x'' ''1'' 5), (120, OpGet ''k''), (130, OpDelete ''x'')]"
  let ?c1 = "Set (run (NewMemoryCache 2) ?before) 100 ''k'' ''v'' 50"
  have fit: "- (2 ^ 63) \<le> (100::int) + 50 \<and> (100::int) + 50 < 2 ^ 63" by simp
  have held: "held_keys (NewMemoryCache 2) [] (?before @ [(100, OpSet ''k'' ''v'' 50)])
      = [''k'', ''a'']"
    by (simp add: cache_defs)
  have un: "unaffected ''k'' ?c1 [''k'', ''a''] ?ops" by (simp add: cache_defs)
  have t140: "\<forall>(t, x) \<in> set ?ops. t \<le> 140" by simp
  have t151: "\<forall>(t, x) \<in> set ?ops. t \<le> 151" by simp
  have early: "fst (Get (run ?c1 ?ops) 140 ''k'') = (''v'', True)"
    using expiration [OF refl fit held [symmetric] refl un t140] by simp
  have late: "fst (Get (run ?c1 ?ops) 151 ''k'') = ([], False)
      \<and> items (snd (Get (run ?c1 ?ops) 151 ''k'')) ''k'' = None"
    using expiration [OF refl fit held [symmetric] refl un t151] by (simp add: default_list_def)
  show ?thesis
    using fit held un early late by (simp only: simp_thms)
qed

text \<open>
  Claim C2 as stated, for every duration, fails for a duration so long that the
  expiration instant leaves the \<open>int64\<close> range (after the year 2262): \<open>UnixNano()\<close> wraps
  around to a negative number, and the entry counts as expired at once. With the
  longest \<open>time.Duration\<close>, about 292 years, a \<open>Get\<close> at the very instant of the \<open>Set\<close>, in
  January 2027, finds nothing.
\<close>

theorem expiration_counterexample:
  "(1800000000000000000::int) - 1800000000000000000 < 9223372036854775807
   \<and> fst (Get (Set (NewMemoryCache 1000) 1800000000000000000 ''k'' ''v'' 9223372036854775807)
            1800000000000000000 ''k'') = ([], False)"
  by (simp add: cache_defs default_list_def)

section \<open>Properties of the table operations\<close>


subsection \<open>Resolution of the cache key\<close>

lemma key_in_maps_none:
  "\<forall>a \<in> set args. \<not> holds_key key a \<Longrightarrow> key_in_maps key args = None"
  by (induction args) (auto simp: holds_key_def split: val.splits option.splits)

lemma key_in_maps_first:
  "i < length args \<Longrightarrow> args ! i = VMap m \<Longrightarrow> map_of m key = Some v \<Longrightarrow>
   \<forall>j < i. \<not> holds_key key (args ! j) \<Longrightarrow> key_in_maps key args = Some v"
proof (induction args arbitrary: i)
  case Nil
  then show ?case by simp
next
  case (Cons a args)
  show ?case
  proof (cases i)
    case 0
    then show ?thesis using Cons.prems by simp
  next
    case (Suc n)
    have a: "\<not> holds_key key a" using Cons.prems(4) Suc by auto
    have "\<forall>j < n. \<not> holds_key key (args ! j)" using Cons.prems(4) Suc by auto
    then have "key_in_maps key args = Some v"
      using Cons.prems Suc by (intro Cons.IH [of n]) simp_all
    then show ?thesis using a by (auto simp: holds_key_def split: val.splits option.splits)
  qed
qed

lemma key_in_pairs_none:
  "\<forall>i. even i \<and> i + 1 < length args \<longrightarrow> args ! i \<noteq> VStr key \<Longrightarrow> key_in_pairs key args = None"
proof (induction key args rule: key_in_pairs.induct)
  case (1 key a b rest)
  have "even (0::nat) \<and> 0 + 1 < length (a # b # rest)" by simp
  then have "(a # b # rest) ! 0 \<noteq> VStr key" using "1.prems" by blast
  then have a: "a \<noteq> VStr key" by simp
  have r: "\<forall>i. even i \<and> i + 1 < length rest \<longrightarrow> rest ! i \<noteq> VStr key"
  proof (intro allI impI)
    fix i assume "even i \<and> i + 1 < length rest"
    then have "even (i + 2) \<and> (i + 2) + 1 < length (a # b # rest)" by simp
    then have "(a # b # rest) ! (i + 2) \<noteq> VStr key" using "1.prems" by blast
    then show "rest ! i \<noteq> VStr key" by simp
  qed
  have "key_in_pairs key rest = None" using a r by (rule "1.IH")
  then show ?case using a by simp
qed simp_all

lemma key_in_pairs_first:
  "even i \<Longrightarrow> i + 1 < length args \<Longrightarrow> args ! i = VStr key \<Longrightarrow>
   \<forall>j < i. even j \<longrightarrow> args ! j \<noteq> VStr key \<Longrightarrow> key_in_pairs key args = Some (args ! (i + 1))"
proof (induction key args arbitrary: i rule: key_in_pairs.induct)
  case (1 key a b rest)
  show ?case
  proof (cases "i = 0")
    case True
    then show ?thesis using "1.prems"(3) by simp
  next
    case False
    have "i \<noteq> 1" using "1.prems"(1) by auto
    then obtain n where n: "i = n + 2" using False by (metis add_2_eq_Suc' not0_implies_Suc One_nat_def)
    have "0 < i \<and> even (0::nat)" using False by simp
    then have "(a # b # rest) ! 0 \<noteq> VStr key" using "1.prems"(4) by blast
    then have a: "a \<noteq> VStr key" by simp
    have r: "\<forall>j < n. even j \<longrightarrow> rest ! j \<noteq> VStr key"
    proof (intro allI impI)
      fix j assume "j < n" "even j"
      then have "j + 2 < i \<and> even (j + 2)" using n by simp
      then have "(a # b # rest) ! (j + 2) \<noteq> VStr key" using "1.prems"(4) by blast
      then show "rest ! j \<noteq> VStr key" by simp
    qed
    have e: "even n" using "1.prems"(1) n by simp
    have l: "n + 1 < length rest" using "1.prems"(2) n by simp
    have k: "rest ! n = VStr key" using "1.prems"(3) n by simp
    have "key_in_pairs key rest = Some (rest ! (n + 1))" using a e l k r by (rule "1.IH")
    then show ?thesis using a n by simp
  qed
qed simp_all

text \<open>
  Claim C6. When caching is not enabled \<open>getCacheKey\<close> fails with the caching-disabled
  error, and when it is enabled with an empty key field, with the key-field-undefined
  error. With caching enabled and a key field: when some argument is a map that holds
  the key field, the result is the printed form of the value that the first such map
  (in the order of the arguments) holds under it; when no map holds it, and some even
  position \<open>i\<close> with a position \<open>i + 1\<close> after it holds a string equal to the key field,
  the result is the printed form of the argument at \<open>i + 1\<close> for the first such \<open>i\<close>;
  and when neither is the case, \<open>getCacheKey\<close> fails with the key-not-found error.
\<close>

theorem getCacheKey_resolution:
  "(\<not> Cached t \<longrightarrow> getCacheKey L t args = Inl ''caching is not enabled for this table'')
   \<and> (Cached t \<and> CacheKey t = '''' \<longrightarrow>
        getCacheKey L t args = Inl ''CacheKey is not defined for this table'')
   \<and> (Cached t \<and> CacheKey t \<noteq> '''' \<longrightarrow>
        (\<forall>i m v. i < length args \<and> args ! i = VMap m \<and> map_of m (CacheKey t) = Some v
            \<and> (\<forall>j < i. \<not> holds_key (CacheKey t) (args ! j))
            \<longrightarrow> getCacheKey L t args = Inr (Sprint L v))
      \<and> (\<forall>i. (\<forall>a \<in> set args. \<not> holds_key (CacheKey t) a)
            \<and> even i \<and> i + 1 < length args \<and> args ! i = VStr (CacheKey t)
            \<and> (\<forall>j < i. even j \<longrightarrow> args ! j \<noteq> VStr (CacheKey t))
            \<longrightarrow> getCacheKey L t args = Inr (Sprint L (args ! (i + 1))))
      \<and> ((\<forall>a \<in> set args. \<not> holds_key (CacheKey t) a)
            \<and> (\<forall>i. even i \<and> i + 1 < length args \<longrightarrow> args ! i \<noteq> VStr (CacheKey t))
            \<longrightarrow> getCacheKey L t args =
                  Inl (''CacheKey '' @ [CHR 0x27] @ CacheKey t @ [CHR 0x27] @ '' not found in whereArgs'')))"
proof -
  have maps: "getCacheKey L t args = Inr (Sprint L v)"
    if "Cached t" "CacheKey t \<noteq> ''''" "i < length args" "args ! i = VMap m"
      "map_of m (CacheKey t) = Some v" "\<forall>j < i. \<not> holds_key (CacheKey t) (args ! j)"
    for i m v
    using that key_in_maps_first [of i args m "CacheKey t" v] by (simp add: getCacheKey_def)
  have pairs: "getCacheKey L t args = Inr (Sprint L (args ! (i + 1)))"
    if "Cached t" "CacheKey t \<noteq> ''''" "\<forall>a \<in> set args. \<not> holds_key (CacheKey t) a"
      "even i" "i + 1 < length args" "args ! i = VStr (CacheKey t)"
      "\<forall>j < i. even j \<longrightarrow> args ! j \<noteq> VStr (CacheKey t)"
    for i
    using that key_in_maps_none [of args "CacheKey t"] key_in_pairs_first [of i args "CacheKey t"]
    by (simp add: getCacheKey_def)
  have none: "getCacheKey L t args =
      Inl (''CacheKey '' @ [CHR 0x27] @ CacheKey t @ [CHR 0x27] @ '' not found in whereArgs'')"
    if "Cached t" "CacheKey t \<noteq> ''''" "\<forall>a \<in> set args. \<not> holds_key (CacheKey t) a"
      "\<forall>i. even i \<and> i + 1 < length args \<longrightarrow> args ! i \<noteq> VStr (CacheKey t)"
    using that key_in_maps_none [of args "CacheKey t"] key_in_pairs_none [of args "CacheKey t"]
    by (simp add: getCacheKey_def)
  have off: "\<not> Cached t \<Longrightarrow> getCacheKey L t args = Inl ''caching is not enabled for this table''"
    by (simp add: getCacheKey_def)
  have undef: "Cached t \<Longrightarrow> CacheKey t = '''' \<Longrightarrow>
      getCacheKey L t args = Inl ''CacheKey is not defined for this table''"
    by (simp add: getCacheKey_def)
  show ?thesis using maps pairs none off undef by blast
qed

text \<open>
  Claim C6 on the examples of the source: \<open>getCacheKey(map{"id": 5})\<close> and
  \<open>getCacheKey("id", 5)\<close> give \<open>"5"\<close>; a key field at an odd position is not found.
\<close>

theorem getCacheKey_resolution_witness:
  "getCacheKey example_lib example_table [VMap [(''id'', VInt 5)]] = Inr ''5''
   \<and> getCacheKey example_lib example_table [VStr ''id'', VInt 5] = Inr ''5''
   \<and> getCacheKey example_lib example_table [VStr ''email'', VStr ''a@b'', VStr ''id''] =
       Inl ''CacheKey 'id' not found in whereArgs''
   \<and> getCacheKey example_lib (example_table\<lparr>Cached := False\<rparr>) [VMap [(''id'', VInt 5)]] =
       Inl ''caching is not enabled for this table''
   \<and> getCacheKey example_lib (example_table\<lparr>CacheKey := ''''\<rparr>) [VMap [(''id'', VInt 5)]] =
       Inl ''CacheKey is not defined for this table''"
proof -
  have five: "Sprint example_lib (VInt 5) = ''5''"
    by (simp add: example_lib_def itoa_def decimal.simps digit_def)
  have c: "Cached example_table \<and> CacheKey example_table \<noteq> ''''"
    by (simp add: example_table_eq)
  note R = getCacheKey_resolution [of example_table example_lib]
  have m: "getCacheKey example_lib example_table [VMap [(''id'', VInt 5)]] = Inr ''5''"
    using R [of "[VMap [(''id'', VInt 5)]]", THEN conjunct2, THEN conjunct2, THEN mp, OF c,
        THEN conjunct1, rule_format, of 0 "[(''id'', VInt 5)]" "VInt 5"]
    by (simp add: example_table_eq five)
  have p: "getCacheKey example_lib example_table [VStr ''id'', VInt 5] = Inr ''5''"
    using R [of "[VStr ''id'', VInt 5]", THEN conjunct2, THEN conjunct2, THEN mp, OF c,
        THEN conjunct2, THEN conjunct1, rule_format, of 0]
    by (simp add: example_table_eq five holds_key_def)
  have "\<forall>i. even i \<and> i + 1 < length [VStr ''email'', VStr ''a@b'', VStr ''id'']
      \<longrightarrow> [VStr ''email'', VStr ''a@b'', VStr ''id''] ! i \<noteq> VStr ''id''"
    by (auto simp: less_Suc_eq)
  then have n: "getCacheKey example_lib example_table [VStr ''email'', VStr ''a@b'', VStr ''id''] =
       Inl ''CacheKey 'id' not found in whereArgs''"
    using R [of "[VStr ''email'', VStr ''a@b'', VStr ''id'']", THEN conjunct2, THEN conjunct2,
        THEN mp, OF c, THEN conjunct2, THEN conjunct2]
    by (simp add: example_table_eq holds_key_def)
  have d: "getCacheKey example_lib (example_table\<lparr>Cached := False\<rparr>) [VMap [(''id'', VInt 5)]] =
       Inl ''caching is not enabled for this table''"
    using getCacheKey_resolution [of "example_table\<lparr>Cached := False\<rparr>" example_lib
        "[VMap [(''id'', VInt 5)]]", THEN conjunct1]
    by simp
  have u: "getCacheKey example_lib (example_table\<lparr>CacheKey := ''''\<rparr>) [VMap [(''id'', VInt 5)]] =
       Inl ''CacheKey is not defined for this table''"
    using getCacheKey_resolution [of "example_table\<lparr>CacheKey := ''''\<rparr>" example_lib
        "[VMap [(''id'', VInt 5)]]", THEN conjunct2, THEN conjunct1]
    by (simp add: example_table_eq)
  show ?thesis using m p n d u by (simp only: simp_thms)
qed



subsection \<open>Single-row fetch\<close>

lemma getCacheValue_fields:
  "snd (snd (getCacheValue L t now key target)) =
     t\<lparr>CacheData := CacheData (snd (snd (getCacheValue L t now key target)))\<rparr>"
  by (auto simp: getCacheValue_def Let_def split: option.splits bool.splits prod.splits sum.splits)

lemma after_lookup_fields:
  "after_lookup L now t args = t\<lparr>CacheData := CacheData (after_lookup L now t args)\<rparr>"
  using getCacheValue_fields [of L t now]
  by (auto simp: after_lookup_def split: sum.splits)

lemma after_lookup_same [simp]:
  "Name (after_lookup L now t args) = Name t"
  "Connection (after_lookup L now t args) = Connection t"
  "Cached (after_lookup L now t args) = Cached t"
  "CacheKey (after_lookup L now t args) = CacheKey t"
  "CacheTTL (after_lookup L now t args) = CacheTTL t"
  by (subst after_lookup_fields, simp)+

lemma getCacheKey_fields:
  "Cached t' = Cached t \<Longrightarrow> CacheKey t' = CacheKey t \<Longrightarrow> getCacheKey L t' args = getCacheKey L t args"
  by (simp add: getCacheKey_def cong: option.case_cong)

lemma FetchOne_lookup:
  assumes "Cached t"
  shows "(case getCacheKey L t args of
            Inr key \<Rightarrow>
              (case getCacheValue L t now key [] of
                 ((found, _), cachedResult, t') \<Rightarrow>
                   if found then (Some cachedResult, t') else (None, t'))
          | Inl _ \<Rightarrow> (None, t))
         = (cached_row L now t args, after_lookup L now t args)"
  using assms
  by (auto simp: cached_row_def after_lookup_def getCacheValue_def Get_def Let_def
      split: sum.splits option.splits prod.splits bool.splits)

text \<open>\<open>FetchOne\<close> after its lookup in the cache.\<close>

lemma FetchOne_hit:
  assumes "Cached t" and "cached_row L now t args = Some row"
  shows "FetchOne L now now' t args =
           Inr \<lparr>returned = Inr row, table_after = after_lookup L now t args, sent = [], spawned = []\<rparr>"
  using assms by (simp add: FetchOne_def FetchOne_lookup)

lemma FetchOne_miss:
  assumes "Cached t" and "cached_row L now t args = None"
    and "buildWhereClause args 1 = Inr (w, ps, n)" and "GetConnection (Connection t) = None"
  shows "FetchOne L now now' t args =
     (let t1 = after_lookup L now t args; selectSQL = ''SELECT * FROM '' @ Name t @ w @ '' LIMIT 1'' in
      case Query (Connection t) selectSQL ps of
        Inl err \<Rightarrow>
          Inr \<lparr>returned = Inl (''failed to execute fetch one: '' @ err),
               table_after = t1, sent = [(selectSQL, ps)], spawned = []\<rparr>
      | Inr [] \<Rightarrow>
          Inr \<lparr>returned = Inl ''no rows found'',
               table_after = t1, sent = [(selectSQL, ps)], spawned = []\<rparr>
      | Inr (row # _) \<Rightarrow>
          (case fetchRowResult row of
             Inl err \<Rightarrow>
               Inr \<lparr>returned = Inl (''failed to fetch row: '' @ err),
                    table_after = t1, sent = [(selectSQL, ps)], spawned = []\<rparr>
           | Inr result \<Rightarrow>
               Inr \<lparr>returned = Inr result,
                    table_after =
                      (case getCacheKey L t [VMap result] of
                         Inr key \<Rightarrow> snd (setCache L t1 now' key (VMap result))
                       | Inl _ \<Rightarrow> t1),
                    sent = [(selectSQL, ps)], spawned = []\<rparr>))"
proof -
  have k: "getCacheKey L (after_lookup L now t args) [VMap result] = getCacheKey L t [VMap result]"
    for result by (rule getCacheKey_fields) simp_all
  show ?thesis
    using assms
    by (auto simp: FetchOne_def FetchOne_lookup Let_def k split: sum.splits list.splits)
qed

lemmas text_defs =
  QuoteIdentifier_def placeholder_def itoa_def decimal.simps digit_def int64_def

lemmas table_defs =
  buildWhereClause_def getCacheKey_def setCache_def getCacheValue_def deleteCache_def
  invalidateCache_def fetchRowResult_def

text \<open>
  Claim C3. On a table with caching enabled: when the cache holds a valid row for the
  key resolved from the arguments, \<open>FetchOne\<close> returns this row and passes no statement to
  the database. Otherwise (the key does not resolve, or the cache has no valid entry)
  and with a connection acquired, it passes its \<open>SELECT\<close> statement to the database; and
  when the query yields a row, \<open>FetchOne\<close> returns it, starts no goroutine, and the table it
  leaves is the one after the lookup with the row stored by \<open>setCache\<close> under the key
  resolved from the row itself: when that key resolves and the row encodes, the cache at
  the return is the cache after the lookup with \<open>Set\<close> of the encoded row applied.
\<close>

theorem FetchOne_read_through:
  assumes "Cached t"
  shows
    "(cached_row L now t args = Some row \<longrightarrow>
        (\<exists>out. FetchOne L now now' t args = Inr out \<and> returned out = Inr row \<and> sent out = []))
     \<and> (cached_row L now t args = None \<and> buildWhereClause args 1 = Inr (w, ps, n)
          \<and> GetConnection (Connection t) = None \<longrightarrow>
        (\<exists>out. FetchOne L now now' t args = Inr out
           \<and> sent out = [(''SELECT * FROM '' @ Name t @ w @ '' LIMIT 1'', ps)]
           \<and> (Query (Connection t) (''SELECT * FROM '' @ Name t @ w @ '' LIMIT 1'') ps = Inr (r # rs)
                \<and> fetchRowResult r = Inr result \<longrightarrow>
                returned out = Inr result \<and> spawned out = []
                \<and> table_after out =
                    (case getCacheKey L t [VMap result] of
                       Inr key \<Rightarrow> snd (setCache L (after_lookup L now t args) now' key (VMap result))
                     | Inl _ \<Rightarrow> after_lookup L now t args)
                \<and> (getCacheKey L t [VMap result] = Inr key
                     \<and> CacheData (after_lookup L now t args) = Some c1
                     \<and> Marshal L (VMap result) = Inr data \<longrightarrow>
                     CacheData (table_after out) = Some (Set c1 now' key data (CacheTTL t))))))"
proof (intro conjI impI)
  assume "cached_row L now t args = Some row"
  then show "\<exists>out. FetchOne L now now' t args = Inr out \<and> returned out = Inr row \<and> sent out = []"
    using FetchOne_hit [OF assms] by simp
next
  assume a: "cached_row L now t args = None \<and> buildWhereClause args 1 = Inr (w, ps, n)
          \<and> GetConnection (Connection t) = None"
  let ?sql = "''SELECT * FROM '' @ Name t @ w @ '' LIMIT 1''"
  let ?t1 = "after_lookup L now t args"
  note M = FetchOne_miss [OF assms, of L now args w ps n now']
  have stored: "CacheData (snd (setCache L ?t1 now' key (VMap result)))
      = Some (Set c1 now' key data (CacheTTL t))"
    if "CacheData ?t1 = Some c1" "Marshal L (VMap result) = Inr data"
    using that assms by (simp add: setCache_def)
  show "\<exists>out. FetchOne L now now' t args = Inr out
           \<and> sent out = [(?sql, ps)]
           \<and> (Query (Connection t) ?sql ps = Inr (r # rs) \<and> fetchRowResult r = Inr result \<longrightarrow>
                returned out = Inr result \<and> spawned out = []
                \<and> table_after out =
                    (case getCacheKey L t [VMap result] of
                       Inr key \<Rightarrow> snd (setCache L ?t1 now' key (VMap result))
                     | Inl _ \<Rightarrow> ?t1)
                \<and> (getCacheKey L t [VMap result] = Inr key \<and> CacheData ?t1 = Some c1
                     \<and> Marshal L (VMap result) = Inr data \<longrightarrow>
                     CacheData (table_after out) = Some (Set c1 now' key data (CacheTTL t))))"
    using a stored
    by (auto simp: M Let_def split: sum.splits list.splits)
qed

text \<open>
  Claim C3 at the scenario of the specification: with an empty cache \<open>FetchOne({id: 1})\<close>
  queries the database and leaves the row under the key \<open>1\<close>; a second call on that cache
  returns the row and sends nothing.
\<close>

theorem FetchOne_read_through_witness:
  \<open>Cached example_table
   \<and> cached_row example_lib 0 example_table [VMap [(''id'', VInt 1)]] = None
   \<and> buildWhereClause [VMap [(''id'', VInt 1)]] 1 = Inr ('' WHERE "id" = $1'', [VInt 1], 2)
   \<and> (\<exists>out. FetchOne example_lib 0 10 example_table [VMap [(''id'', VInt 1)]] = Inr out
          \<and> sent out = [(''SELECT * FROM users WHERE "id" = $1 LIMIT 1'', [VInt 1])]
          \<and> returned out = Inr [(''id'', VInt 1), (''age'', VInt 25)]
          \<and> CacheData (table_after out) =
              Some (Set (NewMemoryCache 1000) 10 ''1'' ''id;age;'' 5000000000))
   \<and> cached_row example_lib 20
        (example_table\<lparr>CacheData := Some (Set (NewMemoryCache 1000) 10 ''1'' ''id;age;'' 5000000000)\<rparr>)
        [VMap [(''id'', VInt 1)]] = Some [(''id'', VInt 1), (''age'', VInt 25)]
   \<and> (\<exists>out. FetchOne example_lib 20 30
          (example_table\<lparr>CacheData := Some (Set (NewMemoryCache 1000) 10 ''1'' ''id;age;'' 5000000000)\<rparr>)
          [VMap [(''id'', VInt 1)]] = Inr out
          \<and> returned out = Inr [(''id'', VInt 1), (''age'', VInt 25)] \<and> sent out = [])\<close>
proof -
  let ?args = "[VMap [(''id'', VInt 1)]]"
  let ?row = "[(''id'', VInt 1), (''age'', VInt 25)]"
  let ?t2 = "example_table\<lparr>CacheData := Some (Set (NewMemoryCache 1000) 10 ''1'' ''id;age;'' 5000000000)\<rparr>"
  have c: "Cached example_table" by (simp add: example_table_eq)
  have c2: "Cached ?t2" by (simp add: example_table_eq)
  have one: "Sprint example_lib (VInt 1) = ''1''"
    by (simp add: example_lib_def text_defs)
  have miss: "cached_row example_lib 0 example_table ?args = None"
    by (simp add: cached_row_def example_table_eq table_defs NewMemoryCache_def one)
  have w: \<open>buildWhereClause ?args 1 = Inr ('' WHERE "id" = $1'', [VInt 1], 2)\<close>
    by (simp add: buildWhereClause_def text_defs)
  have g: "GetConnection (Connection example_table) = None" by (simp add: example_table_eq)
  have q: \<open>Query (Connection example_table) (''SELECT * FROM '' @ Name example_table
        @ '' WHERE "id" = $1'' @ '' LIMIT 1'') [VInt 1] = Inr [Inr ?row]\<close>
    by (simp add: example_table_eq)
  have f: "fetchRowResult (Inr ?row) = Inr ?row" by (simp add: fetchRowResult_def)
  have k: "getCacheKey example_lib example_table [VMap ?row] = Inr ''1''"
    by (simp add: getCacheKey_def example_table_eq one)
  have al: "CacheData (after_lookup example_lib 0 example_table ?args) = Some (NewMemoryCache 1000)"
    by (simp add: after_lookup_def example_table_eq table_defs cache_defs one)
  have m: "Marshal example_lib (VMap ?row) = Inr ''id;age;''" by (simp add: example_lib_def)
  have ttl: "CacheTTL example_table = 5000000000" by (simp add: example_table_eq)
  have n: "Name example_table = ''users''" by (simp add: example_table_eq)
  have first: \<open>\<exists>out. FetchOne example_lib 0 10 example_table ?args = Inr out
          \<and> sent out = [(''SELECT * FROM users WHERE "id" = $1 LIMIT 1'', [VInt 1])]
          \<and> returned out = Inr ?row
          \<and> CacheData (table_after out) =
              Some (Set (NewMemoryCache 1000) 10 ''1'' ''id;age;'' 5000000000)\<close>
    using FetchOne_read_through [OF c, where L = example_lib and now = 0 and now' = 10
        and args = ?args and w = \<open>'' WHERE "id" = $1''\<close> and ps = "[VInt 1]" and n = 2
        and r = "Inr ?row" and rs = "[]" and result = ?row and key = "''1''"
        and ?c1.0 = "NewMemoryCache 1000" and data = "''id;age;''", THEN conjunct2]
      miss w g q f k al m
    by (auto simp: ttl n)
  have um: "Unmarshal example_lib ''id;age;'' [] = Inr ?row" by (simp add: example_lib_def)
  have hit: "cached_row example_lib 20 ?t2 ?args = Some ?row"
    by (simp add: cached_row_def example_table_eq table_defs cache_defs one um)
  have second: "\<exists>out. FetchOne example_lib 20 30 ?t2 ?args = Inr out
          \<and> returned out = Inr ?row \<and> sent out = []"
    using FetchOne_read_through [OF c2, where L = example_lib and now = 20 and now' = 30
        and args = ?args and row = ?row, THEN conjunct1] hit
    by blast
  show ?thesis using c miss w first hit second by (simp only: simp_thms)
qed

text \<open>
  Claim C5, as the code has it. When the entry that \<open>FetchOne\<close> finds under the resolved
  key is not expired and its bytes do not decode, the call goes on as on a miss: with
  a connection acquired it sends its \<open>SELECT\<close> statement, and it returns what it returns
  when the cache has no entry under the key, so the decoding error is not in its
  result. The entry is not purged: after the lookup the cache still holds it, moved to
  the front, and when the call returns an error the cache at the return is this cache.
\<close>

theorem FetchOne_decode_failure:
  assumes cached: "Cached t" and cache: "CacheData t = Some c"
    and key: "getCacheKey L t args = Inr key"
    and ent: "items c key = Some ent" "Key ent = key" "\<not> now > Expiration ent"
    and bad: "Unmarshal L (Value ent) [] = Inl err"
    and w: "buildWhereClause args 1 = Inr (w, ps, n)"
    and conn: "GetConnection (Connection t) = None"
  shows "\<exists>out out'.
           FetchOne L now now' t args = Inr out
         \<and> FetchOne L now now' (t\<lparr>CacheData := Some (Delete c key)\<rparr>) args = Inr out'
         \<and> returned out = returned out' \<and> sent out = sent out'
         \<and> sent out = [(''SELECT * FROM '' @ Name t @ w @ '' LIMIT 1'', ps)]
         \<and> CacheData (after_lookup L now t args) =
             Some (c\<lparr>evictList := MoveToFront ent (evictList c)\<rparr>)
         \<and> (returned out = Inl e \<longrightarrow>
               CacheData (table_after out) = Some (c\<lparr>evictList := MoveToFront ent (evictList c)\<rparr>))"
proof -
  let ?t' = "t\<lparr>CacheData := Some (Delete c key)\<rparr>"
  let ?sql = "''SELECT * FROM '' @ Name t @ w @ '' LIMIT 1''"
  have miss: "cached_row L now t args = None"
    using cache key ent bad by (simp add: cached_row_def)
  have k': "getCacheKey L ?t' args = Inr key"
    using key getCacheKey_fields [of ?t' t L args] by simp
  have gone: "items (Delete c key) key = None"
    using ent by (simp add: Delete_def removeElement_def)
  have miss': "cached_row L now ?t' args = None"
    using k' gone by (simp add: cached_row_def)
  have al: "CacheData (after_lookup L now t args) = Some (c\<lparr>evictList := MoveToFront ent (evictList c)\<rparr>)"
    using cached cache key ent bad by (simp add: after_lookup_def getCacheValue_def Get_def)
  have c': "Cached ?t'" "GetConnection (Connection ?t') = None" using cached conn by simp_all
  note M = FetchOne_miss [OF cached miss w conn, of now']
  note M' = FetchOne_miss [OF c'(1) miss' w c'(2), of now']
  show ?thesis
    using al by (auto simp: M M' Let_def split: sum.splits list.splits)
qed

text \<open>
  Claim C5 on the table with the undecodable entry and no row in the database: the
  call returns \<open>no rows found\<close>, as without the entry, and the entry is still cached.
\<close>

theorem FetchOne_decode_failure_witness:
  "Cached corrupt_table
   \<and> getCacheKey example_lib corrupt_table [VMap [(''id'', VInt 1)]] = Inr ''1''
   \<and> Unmarshal example_lib ''garbage'' [] = Inl ''invalid character''
   \<and> (\<exists>out out'.
         FetchOne example_lib 10 20 corrupt_table [VMap [(''id'', VInt 1)]] = Inr out
       \<and> FetchOne example_lib 10 20
           (corrupt_table\<lparr>CacheData :=
              Some (Delete (Set (NewMemoryCache 1000) 0 ''1'' ''garbage'' 5000000000) ''1'')\<rparr>)
           [VMap [(''id'', VInt 1)]] = Inr out'
       \<and> returned out = returned out' \<and> sent out = sent out'
       \<and> returned out = Inl ''no rows found''
       \<and> map_option evictList (CacheData (table_after out)) =
           Some [\<lparr>Key = ''1'', Value = ''garbage'', Expiration = 5000000000\<rparr>])"
proof -
  let ?args = "[VMap [(''id'', VInt 1)]]"
  let ?c = "Set (NewMemoryCache 1000) 0 ''1'' ''garbage'' 5000000000"
  let ?ent = "\<lparr>Key = ''1'', Value = ''garbage'', Expiration = 5000000000\<rparr>"
  have one: "Sprint example_lib (VInt 1) = ''1''"
    by (simp add: example_lib_def text_defs)
  have um: "Unmarshal example_lib ''garbage'' [] = Inl ''invalid character''"
    by (simp add: example_lib_def)
  have cached: "Cached corrupt_table" by (simp add: corrupt_table_def example_table_eq)
  have cache: "CacheData corrupt_table = Some ?c" by (simp add: corrupt_table_def)
  have key: "getCacheKey example_lib corrupt_table ?args = Inr ''1''"
    by (simp add: getCacheKey_def corrupt_table_def example_table_eq one)
  have ent: "items ?c ''1'' = Some ?ent" "Key ?ent = ''1''" "\<not> 10 > Expiration ?ent"
    by (simp_all add: cache_defs)
  have bad: "Unmarshal example_lib (Value ?ent) [] = Inl ''invalid character''"
    using um by simp
  have w: \<open>buildWhereClause ?args 1 = Inr ('' WHERE "id" = $1'', [VInt 1], 2)\<close>
    by (simp add: buildWhereClause_def text_defs)
  have conn: "GetConnection (Connection corrupt_table) = None" by (simp add: corrupt_table_def)
  have ev: "returned (projr (FetchOne example_lib 10 20 corrupt_table ?args)) = Inl ''no rows found''"
    by (simp add: FetchOne_def corrupt_table_def example_table_eq table_defs cache_defs one um text_defs)
  have l: "evictList (?c\<lparr>evictList := MoveToFront ?ent (evictList ?c)\<rparr>) = [?ent]"
    by (simp add: cache_defs)
  obtain out out' where o:
    "FetchOne example_lib 10 20 corrupt_table ?args = Inr out"
    "FetchOne example_lib 10 20 (corrupt_table\<lparr>CacheData := Some (Delete ?c ''1'')\<rparr>) ?args = Inr out'"
    "returned out = returned out'" "sent out = sent out'"
    "returned out = Inl ''no rows found'' \<longrightarrow>
       CacheData (table_after out) = Some (?c\<lparr>evictList := MoveToFront ?ent (evictList ?c)\<rparr>)"
    using FetchOne_decode_failure [OF cached cache key ent bad w conn, of 20 "''no rows found''"]
    by blast
  have r: "returned out = Inl ''no rows found''" using ev o(1) by simp
  then have "map_option evictList (CacheData (table_after out)) = Some [?ent]"
    using o(5) l by simp
  then show ?thesis using cached key um o(1-4) r by blast
qed

text \<open>
  Claim C5 as stated fails in its last part, the purge. On the table with the
  undecodable entry \<open>FetchOne({id: 1})\<close> returns \<open>no rows found\<close>; the cache still holds the
  entry afterwards, and a \<open>Get\<close> of the key serves the same bytes again.
\<close>

theorem FetchOne_decode_failure_counterexample:
  "\<not> isl (FetchOne example_lib 10 20 corrupt_table [VMap [(''id'', VInt 1)]])
   \<and> returned (projr (FetchOne example_lib 10 20 corrupt_table [VMap [(''id'', VInt 1)]])) =
       Inl ''no rows found''
   \<and> map_option evictList (CacheData (table_after (projr
         (FetchOne example_lib 10 20 corrupt_table [VMap [(''id'', VInt 1)]])))) =
       Some [\<lparr>Key = ''1'', Value = ''garbage'', Expiration = 5000000000\<rparr>]
   \<and> fst (Get (the (CacheData (table_after (projr
         (FetchOne example_lib 10 20 corrupt_table [VMap [(''id'', VInt 1)]]))))) 30 ''1'') =
       (''garbage'', True)"
proof -
  have one: "Sprint example_lib (VInt 1) = ''1''"
    by (simp add: example_lib_def text_defs)
  have um: "Unmarshal example_lib ''garbage'' [] = Inl ''invalid character''"
    by (simp add: example_lib_def)
  show ?thesis
    by (simp add: FetchOne_def corrupt_table_def example_table_eq table_defs cache_defs one um text_defs)
qed



subsection \<open>Update and Delete\<close>

text \<open>
  Building the filter returns on well-formed arguments, and the rounds of the goroutines
  keep the cache in place; so the clearing empties it.
\<close>

lemma in_loop_returns: "\<exists>a b c. in_loop rv inArgs args n = (a, b, c)"
  by (cases "in_loop rv inArgs args n") auto

lemma ToSQL_returns:
  assumes "has_operands c"
  shows "\<exists>sql args n'. ToSQL c col n = Inr (sql, args, n')"
proof -
  consider (isin) "Type c = ConditionIn" | (between) "Type c = ConditionBetween"
    | (un) "Type c \<in> {ConditionLike, ConditionGt, ConditionLt, ConditionGte, ConditionLte, ConditionNeq}"
    | (other) "Type c \<notin> {ConditionIn, ConditionBetween,
         ConditionLike, ConditionGt, ConditionLt, ConditionGte, ConditionLte, ConditionNeq}"
    by blast
  then show ?thesis
  proof cases
    case isin
    then obtain v0 rest where vs: "Values c = v0 # rest"
      using assms by (cases "Values c") (auto simp: has_operands_def ConditionType_defs)
    show ?thesis
      using isin vs in_loop_returns
      by (cases v0) (auto simp: ToSQL_def split: prod.splits)
  next
    case between
    then obtain v0 v1 rest where vs: "Values c = v0 # v1 # rest"
      using assms by (cases "Values c"; cases "tl (Values c)") (auto simp: has_operands_def)
    show ?thesis using between vs by (simp add: ToSQL_def ConditionType_defs)
  next
    case un
    then obtain v0 rest where vs: "Values c = v0 # rest"
      using assms by (cases "Values c") (auto simp: has_operands_def ConditionType_defs)
    show ?thesis using un vs by (auto simp: ToSQL_def ConditionType_defs)
  next
    case other
    then show ?thesis by (simp add: ToSQL_def)
  qed
qed

lemma where_map_returns:
  "well_formed_entries m \<Longrightarrow> \<exists>a b c. where_map m conditions args n = Inr (a, b, c)"
proof (induction m arbitrary: conditions args n)
  case Nil
  then show ?case by simp
next
  case (Cons e m)
  obtain key v where e: "e = (key, v)" by (cases e)
  have wf: "well_formed_entries m" using Cons.prems by (simp add: well_formed_entries_def)
  show ?case
  proof (cases "\<exists>cond. v = VCond cond")
    case True
    then obtain cond where v: "v = VCond cond" by blast
    then have "has_operands cond" using Cons.prems e by (simp add: well_formed_entries_def)
    then obtain sql condArgs n' where "ToSQL cond (QuoteIdentifier key) n = Inr (sql, condArgs, n')"
      using ToSQL_returns by blast
    then show ?thesis using Cons.IH [OF wf] by (simp add: e v)
  next
    case False
    then show ?thesis using Cons.IH [OF wf] by (cases v) (simp_all add: e)
  qed
qed

lemma where_args_returns:
  "well_formed_args whereArgs \<Longrightarrow> \<exists>a b c. where_args whereArgs conditions args n = Inr (a, b, c)"
proof (induction whereArgs arbitrary: conditions args n)
  case Nil
  then show ?case by simp
next
  case (Cons arg rest)
  have wf: "well_formed_args rest" using Cons.prems by (simp add: well_formed_args_def)
  show ?case
  proof (cases "\<exists>m. arg = VMap m")
    case True
    then obtain m where v: "arg = VMap m" by blast
    then have "well_formed_entries m" using Cons.prems by (simp add: well_formed_args_def)
    then obtain a b c where "where_map m conditions args n = Inr (a, b, c)"
      using where_map_returns by blast
    then show ?thesis using Cons.IH [OF wf] by (simp add: v)
  next
    case False
    then show ?thesis using Cons.IH [OF wf] by (cases arg) simp_all
  qed
qed

lemma buildWhereClause_returns:
  assumes "well_formed_args whereArgs"
  shows "\<exists>w ps n'. buildWhereClause whereArgs n = Inr (w, ps, n')"
proof -
  obtain a b c where "where_args whereArgs [] [] n = Inr (a, b, c)"
    using where_args_returns [OF assms] by blast
  then show ?thesis by (simp add: buildWhereClause_def)
qed

lemma cache_row_cached:
  assumes "Cached t" and "CacheData t = Some c"
  shows "Cached (cache_row L now t row) \<and> (\<exists>c'. CacheData (cache_row L now t row) = Some c')"
  using assms
  by (auto simp: cache_row_def setCache_def split: sum.splits)

lemma cache_rows_cached:
  "Cached t \<Longrightarrow> CacheData t = Some c \<Longrightarrow>
   Cached (cache_rows L clock i t rows) \<and> (\<exists>c'. CacheData (cache_rows L clock i t rows) = Some c')"
proof (induction rows arbitrary: t c i)
  case Nil
  then show ?case by simp
next
  case (Cons row rows)
  obtain c' where "Cached (cache_row L (clock i) t row)" "CacheData (cache_row L (clock i) t row) = Some c'"
    using cache_row_cached [OF Cons.prems] by blast
  then show ?case using Cons.IH by simp
qed

lemma uncache_row_cached:
  assumes "Cached t" and "CacheData t = Some c"
  shows "Cached (uncache_row L t row) \<and> (\<exists>c'. CacheData (uncache_row L t row) = Some c')"
  using assms
  by (auto simp: uncache_row_def deleteCache_def split: sum.splits)

lemma uncache_rows_cached:
  "Cached t \<Longrightarrow> CacheData t = Some c \<Longrightarrow>
   Cached (uncache_rows L t rows) \<and> (\<exists>c'. CacheData (uncache_rows L t rows) = Some c')"
proof (induction rows arbitrary: t c)
  case Nil
  then show ?case by simp
next
  case (Cons row rows)
  obtain c' where "Cached (uncache_row L t row)" "CacheData (uncache_row L t row) = Some c'"
    using uncache_row_cached [OF Cons.prems] by blast
  then show ?case using Cons.IH by simp
qed

lemma invalidateCache_empties:
  assumes "Cached t \<and> (\<exists>c. CacheData t = Some c)"
  shows "cache_empty (snd (invalidateCache t))"
  using assms by (auto simp: invalidateCache_def Clear_def cache_empty_def)

lemma cleared_after_cache_rows:
  assumes "Cached t" and "CacheData t = Some c"
  shows "cache_empty (snd (invalidateCache (cache_rows L clock i t rows)))"
  using cache_rows_cached [OF assms] by (intro invalidateCache_empties)

lemma cleared_after_uncache_rows:
  assumes "Cached t" and "CacheData t = Some c"
  shows "cache_empty (snd (invalidateCache (uncache_rows L t rows)))"
  using uncache_rows_cached [OF assms] by (intro invalidateCache_empties)

lemma Update_outcome:
  assumes c: "Cached t" "CacheData t = Some c" and u: "Update L clock ahead t data args = Inr out"
  shows "returned out = Inr results \<longrightarrow> cache_empty (table_after out) \<and> spawned out = drop ahead results"
    and "returned out = Inl e \<longrightarrow> table_after out = t \<and> spawned out = []"
    and "GetConnection (Connection t) = Some e \<longrightarrow> isl (returned out)"
    and "sent out = [(sql, ps)] \<and> Query (Connection t) sql ps = Inl e \<longrightarrow>
           returned out = Inl (''failed to execute update with returning: '' @ e)"
    and "sent out = [(sql, ps)] \<and> Query (Connection t) sql ps = Inr rows \<longrightarrow>
           returned out = (case fetchRowsResult rows of
                             Inl e \<Rightarrow> Inl (''failed to fetch returned rows: '' @ e)
                           | Inr results \<Rightarrow> Inr results)"
  using u c cleared_after_cache_rows [OF c, of L clock 0]
  by (auto simp: Update_def Let_def split: if_splits prod.splits sum.splits option.splits)

lemma Table_Delete_outcome:
  assumes c: "Cached t" "CacheData t = Some c" and u: "Table_Delete L ahead t args = Inr out"
  shows "returned out = Inr results \<longrightarrow> cache_empty (table_after out) \<and> spawned out = drop ahead results"
    and "returned out = Inl e \<longrightarrow> table_after out = t \<and> spawned out = []"
    and "GetConnection (Connection t) = Some e \<longrightarrow> isl (returned out)"
    and "sent out = [(sql, ps)] \<and> Query (Connection t) sql ps = Inl e \<longrightarrow>
           returned out = Inl (''failed to execute delete with returning: '' @ e)"
    and "sent out = [(sql, ps)] \<and> Query (Connection t) sql ps = Inr rows \<longrightarrow>
           returned out = (case fetchRowsResult rows of
                             Inl e \<Rightarrow> Inl (''failed to fetch returned rows: '' @ e)
                           | Inr results \<Rightarrow> Inr results)"
  using u c cleared_after_uncache_rows [OF c, of L]
  by (auto simp: Table_Delete_def Let_def split: if_splits prod.splits sum.splits option.splits)

lemma Update_returns:
  assumes "well_formed_args args"
  shows "\<exists>out. Update L clock ahead t data args = Inr out"
proof -
  obtain setParts sargs n where sp: "set_parts t data [] [] 1 = (setParts, sargs, n)"
    by (cases "set_parts t data [] [] 1") auto
  obtain w ps n' where "buildWhereClause args n = Inr (w, ps, n')"
    using buildWhereClause_returns [OF assms] by blast
  then show ?thesis
    using sp by (auto simp: Update_def Let_def split: sum.splits option.splits)
qed

lemma Table_Delete_returns:
  assumes "well_formed_args args"
  shows "\<exists>out. Table_Delete L ahead t args = Inr out"
proof -
  obtain w ps n' where "buildWhereClause args 1 = Inr (w, ps, n')"
    using buildWhereClause_returns [OF assms] by blast
  then show ?thesis
    by (auto simp: Table_Delete_def Let_def split: sum.splits option.splits)
qed

text \<open>
  What \<open>Update\<close> and \<open>Delete\<close> do with what \<open>conn.Query\<close> and the reading of the rows give
  them. On a table with caching enabled and its cache in place, \<open>Update\<close> and \<open>Delete\<close>
  return whenever their arguments are well formed. When the call returns rows (the
  connection was acquired, \<open>conn.Query\<close> returned no error and every row was read), the cache
  holds no entry once \<open>invalidateCache\<close> has returned, however many rounds of the goroutine
  ran before, and only the goroutine's remaining rounds are left to run. When the
  call returns an error, the table with its cache is as before and no goroutine was
  started. A failure to acquire the connection, an error of the query and an error in
  reading the rows each come back as the error of the call.
\<close>

theorem write_invalidation:
  assumes "Cached t" and "CacheData t = Some c"
  shows
    "(well_formed_args args \<longrightarrow>
        (\<exists>out. Update L clock ahead t data args = Inr out)
        \<and> (\<exists>out. Table_Delete L ahead t args = Inr out))
     \<and> (Update L clock ahead t data args = Inr out \<longrightarrow>
          (returned out = Inr results \<longrightarrow>
             cache_empty (table_after out) \<and> spawned out = drop ahead results)
        \<and> (returned out = Inl e \<longrightarrow> table_after out = t \<and> spawned out = [])
        \<and> (GetConnection (Connection t) = Some e \<longrightarrow> isl (returned out))
        \<and> (sent out = [(sql, ps)] \<and> Query (Connection t) sql ps = Inl e \<longrightarrow>
             returned out = Inl (''failed to execute update with returning: '' @ e))
        \<and> (sent out = [(sql, ps)] \<and> Query (Connection t) sql ps = Inr rows \<longrightarrow>
             returned out = (case fetchRowsResult rows of
                               Inl e \<Rightarrow> Inl (''failed to fetch returned rows: '' @ e)
                             | Inr results \<Rightarrow> Inr results)))
     \<and> (Table_Delete L ahead t args = Inr out' \<longrightarrow>
          (returned out' = Inr results \<longrightarrow>
             cache_empty (table_after out') \<and> spawned out' = drop ahead results)
        \<and> (returned out' = Inl e \<longrightarrow> table_after out' = t \<and> spawned out' = [])
        \<and> (GetConnection (Connection t) = Some e \<longrightarrow> isl (returned out'))
        \<and> (sent out' = [(sql, ps)] \<and> Query (Connection t) sql ps = Inl e \<longrightarrow>
             returned out' = Inl (''failed to execute delete with returning: '' @ e))
        \<and> (sent out' = [(sql, ps)] \<and> Query (Connection t) sql ps = Inr rows \<longrightarrow>
             returned out' = (case fetchRowsResult rows of
                               Inl e \<Rightarrow> Inl (''failed to fetch returned rows: '' @ e)
                             | Inr results \<Rightarrow> Inr results)))"
proof -
  have returns: "well_formed_args args \<longrightarrow>
        (\<exists>out. Update L clock ahead t data args = Inr out)
        \<and> (\<exists>out. Table_Delete L ahead t args = Inr out)"
    using Update_returns Table_Delete_returns by blast
  have update: "Update L clock ahead t data args = Inr out \<longrightarrow>
          (returned out = Inr results \<longrightarrow>
             cache_empty (table_after out) \<and> spawned out = drop ahead results)
        \<and> (returned out = Inl e \<longrightarrow> table_after out = t \<and> spawned out = [])
        \<and> (GetConnection (Connection t) = Some e \<longrightarrow> isl (returned out))
        \<and> (sent out = [(sql, ps)] \<and> Query (Connection t) sql ps = Inl e \<longrightarrow>
             returned out = Inl (''failed to execute update with returning: '' @ e))
        \<and> (sent out = [(sql, ps)] \<and> Query (Connection t) sql ps = Inr rows \<longrightarrow>
             returned out = (case fetchRowsResult rows of
                               Inl e \<Rightarrow> Inl (''failed to fetch returned rows: '' @ e)
                             | Inr results \<Rightarrow> Inr results))"
  proof
    assume u: "Update L clock ahead t data args = Inr out"
    note U = Update_outcome [OF assms u]
    show "(returned out = Inr results \<longrightarrow>
             cache_empty (table_after out) \<and> spawned out = drop ahead results)
        \<and> (returned out = Inl e \<longrightarrow> table_after out = t \<and> spawned out = [])
        \<and> (GetConnection (Connection t) = Some e \<longrightarrow> isl (returned out))
        \<and> (sent out = [(sql, ps)] \<and> Query (Connection t) sql ps = Inl e \<longrightarrow>
             returned out = Inl (''failed to execute update with returning: '' @ e))
        \<and> (sent out = [(sql, ps)] \<and> Query (Connection t) sql ps = Inr rows \<longrightarrow>
             returned out = (case fetchRowsResult rows of
                               Inl e \<Rightarrow> Inl (''failed to fetch returned rows: '' @ e)
                             | Inr results \<Rightarrow> Inr results))"
      by (intro conjI U(1) U(2) U(3) U(4) U(5))
  qed
  have delete: "Table_Delete L ahead t args = Inr out' \<longrightarrow>
          (returned out' = Inr results \<longrightarrow>
             cache_empty (table_after out') \<and> spawned out' = drop ahead results)
        \<and> (returned out' = Inl e \<longrightarrow> table_after out' = t \<and> spawned out' = [])
        \<and> (GetConnection (Connection t) = Some e \<longrightarrow> isl (returned out'))
        \<and> (sent out' = [(sql, ps)] \<and> Query (Connection t) sql ps = Inl e \<longrightarrow>
             returned out' = Inl (''failed to execute delete with returning: '' @ e))
        \<and> (sent out' = [(sql, ps)] \<and> Query (Connection t) sql ps = Inr rows \<longrightarrow>
             returned out' = (case fetchRowsResult rows of
                               Inl e \<Rightarrow> Inl (''failed to fetch returned rows: '' @ e)
                             | Inr results \<Rightarrow> Inr results))"
  proof
    assume d: "Table_Delete L ahead t args = Inr out'"
    note D = Table_Delete_outcome [OF assms d]
    show "(returned out' = Inr results \<longrightarrow>
             cache_empty (table_after out') \<and> spawned out' = drop ahead results)
        \<and> (returned out' = Inl e \<longrightarrow> table_after out' = t \<and> spawned out' = [])
        \<and> (GetConnection (Connection t) = Some e \<longrightarrow> isl (returned out'))
        \<and> (sent out' = [(sql, ps)] \<and> Query (Connection t) sql ps = Inl e \<longrightarrow>
             returned out' = Inl (''failed to execute delete with returning: '' @ e))
        \<and> (sent out' = [(sql, ps)] \<and> Query (Connection t) sql ps = Inr rows \<longrightarrow>
             returned out' = (case fetchRowsResult rows of
                               Inl e \<Rightarrow> Inl (''failed to fetch returned rows: '' @ e)
                             | Inr results \<Rightarrow> Inr results))"
      by (intro conjI D(1) D(2) D(3) D(4) D(5))
  qed
  show ?thesis by (intro conjI returns update delete)
qed

text \<open>
  On the table that caches Alice: \<open>Update({age: 26}, {id: 1})\<close>, with the goroutine's
  round over before the clearing, and \<open>Delete({id: 1})\<close>, with the round still to come,
  leave the cache empty; without a connection both return the error and the table as it was.
\<close>

theorem write_invalidation_witness:
  \<open>Cached alice_table \<and> well_formed_args [VMap [(''id'', VInt 1)]]
   \<and> (\<exists>out. Update example_lib (\<lambda>i. 40) 1 alice_table [(''age'', VInt 26)] [VMap [(''id'', VInt 1)]]
              = Inr out
          \<and> returned out = Inr [[(''id'', VInt 1), (''age'', VInt 25)]]
          \<and> cache_empty (table_after out) \<and> spawned out = [])
   \<and> (\<exists>out. Table_Delete example_lib 0 alice_table [VMap [(''id'', VInt 1)]] = Inr out
          \<and> returned out = Inr [[(''id'', VInt 1), (''age'', VInt 25)]]
          \<and> cache_empty (table_after out)
          \<and> spawned out = [[(''id'', VInt 1), (''age'', VInt 25)]])
   \<and> (\<exists>out. Update example_lib (\<lambda>i. 40) 1 offline_table [(''age'', VInt 26)] [VMap [(''id'', VInt 1)]]
              = Inr out
          \<and> returned out = Inl ''failed to acquire connection: pool closed''
          \<and> table_after out = offline_table)
   \<and> (\<exists>out. Table_Delete example_lib 0 offline_table [VMap [(''id'', VInt 1)]] = Inr out
          \<and> returned out = Inl ''failed to acquire connection: pool closed''
          \<and> table_after out = offline_table)\<close>
proof -
  let ?args = "[VMap [(''id'', VInt 1)]]"
  let ?data = "[(''age'', VInt 26)]"
  let ?row = "[(''id'', VInt 1), (''age'', VInt 25)]"
  let ?c = "Set (NewMemoryCache 1000) 10 ''1'' ''id;age;'' 5000000000"
  have ca: "Cached alice_table" "CacheData alice_table = Some ?c"
    by (simp_all add: alice_table_def example_table_eq)
  have co: "Cached offline_table" "CacheData offline_table = Some ?c"
    by (simp_all add: offline_table_def alice_table_def example_table_eq)
  have wf: "well_formed_args ?args" by (simp add: well_formed_args_def well_formed_entries_def)
  have ru: "returned (projr (Update example_lib (\<lambda>i. 40) 1 alice_table ?data ?args)) = Inr [?row]"
    by (simp add: Update_def alice_table_def example_table_eq validColumns_def
        buildWhereClause_def fetchRowResult_def text_defs)
  have rd: "returned (projr (Table_Delete example_lib 0 alice_table ?args)) = Inr [?row]"
    by (simp add: Table_Delete_def alice_table_def example_table_eq
        buildWhereClause_def fetchRowResult_def text_defs)
  have fu: "returned (projr (Update example_lib (\<lambda>i. 40) 1 offline_table ?data ?args))
      = Inl ''failed to acquire connection: pool closed''"
    by (simp add: Update_def offline_table_def alice_table_def example_table_eq validColumns_def
        buildWhereClause_def text_defs)
  have fd: "returned (projr (Table_Delete example_lib 0 offline_table ?args))
      = Inl ''failed to acquire connection: pool closed''"
    by (simp add: Table_Delete_def offline_table_def alice_table_def example_table_eq
        buildWhereClause_def text_defs)
  note A = write_invalidation [OF ca, where L = example_lib and clock = "\<lambda>i. 40" and args = ?args
      and data = ?data]
  note O = write_invalidation [OF co, where L = example_lib and clock = "\<lambda>i. 40" and args = ?args
      and data = ?data]
  obtain u where u: "Update example_lib (\<lambda>i. 40) 1 alice_table ?data ?args = Inr u"
    using A [where ahead = 1, THEN conjunct1] wf by blast
  obtain d where d: "Table_Delete example_lib 0 alice_table ?args = Inr d"
    using A [where ahead = 0, THEN conjunct1] wf by blast
  obtain fu' where fu': "Update example_lib (\<lambda>i. 40) 1 offline_table ?data ?args = Inr fu'"
    using O [where ahead = 1, THEN conjunct1] wf by blast
  obtain fd' where fd': "Table_Delete example_lib 0 offline_table ?args = Inr fd'"
    using O [where ahead = 0, THEN conjunct1] wf by blast
  have 1: "returned u = Inr [?row] \<and> cache_empty (table_after u) \<and> spawned u = []"
    using A [where ahead = 1 and out = u and results = "[?row]", THEN conjunct2, THEN conjunct1]
      u ru by simp
  have 2: "returned d = Inr [?row] \<and> cache_empty (table_after d) \<and> spawned d = [?row]"
    using A [where ahead = 0 and out' = d and results = "[?row]", THEN conjunct2, THEN conjunct2]
      d rd by simp
  have 3: "returned fu' = Inl ''failed to acquire connection: pool closed''
      \<and> table_after fu' = offline_table"
    using O [where ahead = 1 and out = fu' and e = "''failed to acquire connection: pool closed''",
        THEN conjunct2, THEN conjunct1]
      fu' fu by simp
  have 4: "returned fd' = Inl ''failed to acquire connection: pool closed''
      \<and> table_after fd' = offline_table"
    using O [where ahead = 0 and out' = fd' and e = "''failed to acquire connection: pool closed''",
        THEN conjunct2, THEN conjunct2] fd' fd by simp
  show ?thesis using ca(1) wf u d fu' fd' 1 2 3 4 by blast
qed



text \<open>
  Claim C4 fails on the code when the database operation fails while the statement
  runs. The cache of the table holds the row of Alice under the key \<open>1\<close>. The server
  rejects the \<open>UPDATE\<close> (a check constraint) and the \<open>DELETE\<close> (a foreign key):
  \<open>conn.Query\<close> returns no error, the rows end at once, and the error waits in
  \<open>rows.Err()\<close>, which \<open>Update\<close> and \<open>Delete\<close> never read. Both calls return no row and no
  error, and the cache is empty when they return; the claim, and the comments of both
  functions (an error if the operation fails), have them return the error, and the
  claim has them leave the cache as it was.
\<close>

theorem write_failure_unreported:
  \<open>(\<exists>ent. CacheData rejecting_table = Some (Set (NewMemoryCache 1000) 10 ''1'' ''id;age;'' 5000000000)
        \<and> items (Set (NewMemoryCache 1000) 10 ''1'' ''id;age;'' 5000000000) ''1'' = Some ent)
   \<and> RowsErr (Connection rejecting_table)
         ''UPDATE users SET "age" = $1 WHERE "id" = $2 RETURNING *'' [VInt (- 1), VInt 1]
       = Some ''ERROR: new row for relation users violates check constraint users_age_check (SQLSTATE 23514)''
   \<and> (\<exists>out. Update example_lib (\<lambda>i. 40) 0 rejecting_table [(''age'', VInt (- 1))] [VMap [(''id'', VInt 1)]]
              = Inr out
          \<and> sent out = [(''UPDATE users SET "age" = $1 WHERE "id" = $2 RETURNING *'', [VInt (- 1), VInt 1])]
          \<and> returned out = Inr []
          \<and> cache_empty (table_after out))
   \<and> RowsErr (Connection rejecting_table) ''DELETE FROM users WHERE "id" = $1 RETURNING *'' [VInt 1]
       = Some ''ERROR: update or delete on table users violates foreign key constraint orders_user_id_fkey on table orders (SQLSTATE 23503)''
   \<and> (\<exists>out. Table_Delete example_lib 0 rejecting_table [VMap [(''id'', VInt 1)]] = Inr out
          \<and> sent out = [(''DELETE FROM users WHERE "id" = $1 RETURNING *'', [VInt 1])]
          \<and> returned out = Inr []
          \<and> cache_empty (table_after out))\<close>
  by (simp add: rejecting_table_def alice_table_def example_table_eq Update_def Table_Delete_def
      validColumns_def buildWhereClause_def QuoteIdentifier_def placeholder_def itoa_def
      decimal.simps digit_def int64_def invalidateCache_def cache_empty_def cache_defs)

text \<open>
  A failure in reading a row that comes back, after the statement has run to its end:
  the call returns the error before \<open>invalidateCache\<close>, and the cache keeps the row as it
  was before the update.
\<close>

lemma unread_rows_keep_cache:
  \<open>RowsErr (Connection unreadable_table)
         ''UPDATE users SET "age" = $1 WHERE "id" = $2 RETURNING *'' [VInt 26, VInt 1] = None
   \<and> (\<exists>out. Update example_lib (\<lambda>i. 40) 0 unreadable_table [(''age'', VInt 26)] [VMap [(''id'', VInt 1)]]
              = Inr out
          \<and> sent out = [(''UPDATE users SET "age" = $1 WHERE "id" = $2 RETURNING *'', [VInt 26, VInt 1])]
          \<and> returned out = Inl ''failed to fetch returned rows: failed to read returned values: cannot decode the value of column age''
          \<and> table_after out = unreadable_table
          \<and> \<not> cache_empty (table_after out))\<close>
  by (simp add: unreadable_table_def alice_table_def example_table_eq Update_def
      validColumns_def buildWhereClause_def QuoteIdentifier_def placeholder_def itoa_def
      decimal.simps digit_def int64_def fetchRowResult_def cache_empty_def cache_defs)

subsection \<open>The text of the statements\<close>

lemma where_map_conditions:
  "where_map m conditions args n = Inr (conditions', args', n') \<Longrightarrow>
   \<forall>cond \<in> set conditions'. cond \<in> set conditions \<or> (\<exists>entry \<in> set m. from_entry entry cond)"
proof (induction m arbitrary: conditions args n)
  case Nil
  then show ?case by simp
next
  case (Cons e m)
  obtain key v where e: "e = (key, v)" by (cases e)
  show ?case
  proof (cases "\<exists>c. v = VCond c")
    case True
    then obtain c where v: "v = VCond c" by blast
    from Cons.prems obtain sql condArgs k where
      t: "ToSQL c (QuoteIdentifier key) n = Inr (sql, condArgs, k)"
      and r: "where_map m (conditions @ [sql]) (args @ condArgs) k = Inr (conditions', args', n')"
      by (auto simp: e v split: sum.splits)
    have "from_entry e sql" using t by (auto simp: from_entry_def e v)
    then show ?thesis using Cons.IH [OF r] by auto
  next
    case False
    then have r: "where_map m (conditions @ [QuoteIdentifier key @ '' = '' @ placeholder n])
        (args @ [v]) (int64 (n + 1)) = Inr (conditions', args', n')"
      using Cons.prems by (cases v) (simp_all add: e)
    have "from_entry e (QuoteIdentifier key @ '' = '' @ placeholder n)"
      by (auto simp: from_entry_def e)
    then show ?thesis using Cons.IH [OF r] by auto
  qed
qed

lemma where_args_conditions:
  "where_args whereArgs conditions args n = Inr (conditions', args', n') \<Longrightarrow>
   \<forall>cond \<in> set conditions'. cond \<in> set conditions \<or> from_argument whereArgs cond"
proof (induction whereArgs arbitrary: conditions args n)
  case Nil
  then show ?case by simp
next
  case (Cons arg rest)
  have mono: "from_argument rest cond \<Longrightarrow> from_argument (arg # rest) cond" for cond
    by (auto simp: from_argument_def)
  show ?case
  proof (cases arg)
    case (VMap m)
    from Cons.prems obtain c1 a1 n1 where
      w: "where_map m conditions args n = Inr (c1, a1, n1)"
      and r: "where_args rest c1 a1 n1 = Inr (conditions', args', n')"
      by (auto simp: VMap split: sum.splits)
    have "\<forall>cond \<in> set c1. cond \<in> set conditions \<or> from_argument (arg # rest) cond"
    proof
      fix cond assume "cond \<in> set c1"
      then have "cond \<in> set conditions \<or> (\<exists>entry \<in> set m. from_entry entry cond)"
        using where_map_conditions [OF w] by blast
      moreover have "from_argument (arg # rest) cond" if "\<exists>entry \<in> set m. from_entry entry cond"
        unfolding from_argument_def VMap using that by (intro disjI2 exI [of _ m]) auto
      ultimately show "cond \<in> set conditions \<or> from_argument (arg # rest) cond" by blast
    qed
    then show ?thesis using Cons.IH [OF r] mono by blast
  next
    case (VStr s)
    then have r: "where_args rest (conditions @ [s]) args n = Inr (conditions', args', n')"
      using Cons.prems by simp
    have "from_argument (arg # rest) s" by (simp add: from_argument_def VStr)
    then show ?thesis using Cons.IH [OF r] mono by auto
  qed (use Cons.prems Cons.IH mono in \<open>simp_all, blast+\<close>)
qed

lemma set_parts_quoted:
  "set_parts t data setParts0 args0 n = (setParts, sargs, k) \<Longrightarrow>
   \<forall>part \<in> set setParts. part \<in> set setParts0
      \<or> (\<exists>col i. col \<in> fst ` set data \<and> part = QuoteIdentifier col @ '' = '' @ placeholder i)"
proof (induction data arbitrary: setParts0 args0 n)
  case Nil
  then show ?case by simp
next
  case (Cons e data)
  obtain col v where e: "e = (col, v)" by (cases e)
  show ?case
  proof (cases "col \<in> validColumns t")
    case True
    then have r: "set_parts t data (setParts0 @ [QuoteIdentifier col @ '' = '' @ placeholder n])
        (args0 @ [v]) (int64 (n + 1)) = (setParts, sargs, k)"
      using Cons.prems by (simp add: e)
    show ?thesis
    proof
      fix part assume "part \<in> set setParts"
      then consider "part \<in> set setParts0"
        | "part = QuoteIdentifier col @ '' = '' @ placeholder n"
        | "\<exists>col i. col \<in> fst ` set data \<and> part = QuoteIdentifier col @ '' = '' @ placeholder i"
        using Cons.IH [OF r] by auto
      then show "part \<in> set setParts0
          \<or> (\<exists>col i. col \<in> fst ` set (e # data) \<and> part = QuoteIdentifier col @ '' = '' @ placeholder i)"
      proof cases
        case 1
        then show ?thesis by simp
      next
        case 2
        then have "col \<in> fst ` set (e # data) \<and> part = QuoteIdentifier col @ '' = '' @ placeholder n"
          by (simp add: e)
        then show ?thesis by blast
      next
        case 3
        then obtain c i where "c \<in> fst ` set data" "part = QuoteIdentifier c @ '' = '' @ placeholder i"
          by blast
        then have "c \<in> fst ` set (e # data) \<and> part = QuoteIdentifier c @ '' = '' @ placeholder i"
          by simp
        then show ?thesis by blast
      qed
    qed
  next
    case False
    then have r: "set_parts t data setParts0 args0 n = (setParts, sargs, k)"
      using Cons.prems by (simp add: e)
    show ?thesis
    proof
      fix part assume "part \<in> set setParts"
      then consider "part \<in> set setParts0"
        | "\<exists>col i. col \<in> fst ` set data \<and> part = QuoteIdentifier col @ '' = '' @ placeholder i"
        using Cons.IH [OF r] by auto
      then show "part \<in> set setParts0
          \<or> (\<exists>col i. col \<in> fst ` set (e # data) \<and> part = QuoteIdentifier col @ '' = '' @ placeholder i)"
      proof cases
        case 1
        then show ?thesis by simp
      next
        case 2
        then obtain c i where "c \<in> fst ` set data" "part = QuoteIdentifier c @ '' = '' @ placeholder i"
          by blast
        then have "c \<in> fst ` set (e # data) \<and> part = QuoteIdentifier c @ '' = '' @ placeholder i"
          by simp
        then show ?thesis by blast
      qed
    qed
  qed
qed

lemma length_doubled: "length s \<le> length (concat (map (\<lambda>ch. if ch = q then [q, q] else [ch]) s))"
  by (induction s) auto

lemma QuoteIdentifier_longer: "length (QuoteIdentifier s) \<ge> length s + 2"
  using length_doubled [of s "CHR 0x22"] by (simp add: QuoteIdentifier_def)

lemma QuoteIdentifier_changes: "QuoteIdentifier s \<noteq> s"
  using QuoteIdentifier_longer [of s] by (metis add_le_same_cancel1 not_numeral_le_zero)

lemma FetchOne_sends:
  assumes "cached_row L now t args = None" and "buildWhereClause args 1 = Inr (w, ps, n)"
    and "GetConnection (Connection t) = None"
  shows "\<exists>out. FetchOne L now now' t args = Inr out
           \<and> sent out = [(''SELECT * FROM '' @ Name t @ w @ '' LIMIT 1'', ps)]"
proof (cases "Cached t")
  case True
  show ?thesis
    by (auto simp: FetchOne_miss [OF True assms] Let_def split: sum.splits list.splits)
next
  case False
  then show ?thesis
    using assms(2,3) by (auto simp: FetchOne_def Let_def split: sum.splits list.splits)
qed

lemma FetchMany_sends:
  assumes "buildWhereClause args 1 = Inr (w, ps, n)" and "GetConnection (Connection t) = None"
  shows "\<exists>out. FetchMany t args = Inr out \<and> sent out = [(''SELECT * FROM '' @ Name t @ w, ps)]"
  using assms by (auto simp: FetchMany_def Let_def split: sum.splits)

lemma Table_Delete_sends:
  assumes "buildWhereClause args 1 = Inr (w, ps, n)" and "GetConnection (Connection t) = None"
  shows "\<exists>out. Table_Delete L ahead t args = Inr out
           \<and> sent out = [(''DELETE FROM '' @ Name t @ w @ '' RETURNING *'', ps)]"
  using assms by (auto simp: Table_Delete_def Let_def split: sum.splits)

lemma Update_sends:
  assumes "data \<noteq> []" and "set_parts t data [] [] 1 = (setParts, sargs, k)" and "setParts \<noteq> []"
    and "buildWhereClause args k = Inr (w, ps, n)" and "GetConnection (Connection t) = None"
  shows "\<exists>out. Update L clock ahead t data args = Inr out
           \<and> sent out = [(''UPDATE '' @ Name t @ '' SET '' @ Join setParts '', '' @ w @ '' RETURNING *'',
                          sargs @ ps)]"
  using assms by (auto simp: Update_def Let_def split: sum.splits)

lemma insert_parts_eq:
  "insert_parts t data columns args =
     (columns @ map (\<lambda>(col, v). QuoteIdentifier col) (filter (\<lambda>(col, v). col \<in> validColumns t) data),
      args @ map snd (filter (\<lambda>(col, v). col \<in> validColumns t) data))"
  by (induction data arbitrary: columns args) auto

lemma Insert_sends:
  assumes "kept = filter (\<lambda>(col, v). col \<in> validColumns t) data" and "kept \<noteq> []"
    and "GetConnection (Connection t) = None"
  shows "sent (Insert t data) =
           [(''INSERT INTO '' @ Name t @ '' ('' @ Join (map (\<lambda>(col, v). QuoteIdentifier col) kept) '', ''
               @ '') VALUES ('' @ Join (placeholders 1 (length kept)) '', '' @ '') RETURNING *'',
             map snd kept)]"
proof -
  have p: "map (\<lambda>i. placeholder (int i + 1)) [0..<length kept] = placeholders 1 (length kept)"
    by (simp add: placeholders_def add.commute)
  have i: "insert_parts t data [] [] = (map (\<lambda>(col, v). QuoteIdentifier col) kept, map snd kept)"
    by (simp add: insert_parts_eq assms(1))
  show ?thesis
    using assms(2,3) by (auto simp: Insert_def i p Let_def split: sum.splits list.splits)
qed

text \<open>
  Claim C10. The statements that \<open>FetchOne\<close> (on a miss), \<open>FetchMany\<close>, \<open>Delete\<close>, \<open>Insert\<close> and
  \<open>Update\<close> pass to the database are \<open>SELECT * FROM\<close>, \<open>DELETE FROM\<close>, \<open>INSERT INTO\<close> and \<open>UPDATE\<close>
  followed by the table name as it is, where \<open>QuoteIdentifier\<close> would have changed it; the
  statements of \<open>CreateTable\<close> and \<open>DropTable\<close> carry the quoted name. In the data statements
  \<open>QuoteIdentifier\<close> is applied to the keys of the map arguments only: to the columns of
  \<open>Insert\<close>, to the columns of the \<open>SET\<close> clause, and to the keys of the maps of the filter,
  whose raw string arguments stand unchanged.
\<close>

theorem table_name_verbatim:
  "(cached_row L now t args = None \<and> buildWhereClause args 1 = Inr (w, ps, n)
      \<and> GetConnection (Connection t) = None \<longrightarrow>
        (\<exists>out. FetchOne L now now' t args = Inr out
           \<and> sent out = [(''SELECT * FROM '' @ Name t @ w @ '' LIMIT 1'', ps)])
      \<and> (\<exists>out. FetchMany t args = Inr out \<and> sent out = [(''SELECT * FROM '' @ Name t @ w, ps)])
      \<and> (\<exists>out. Table_Delete L ahead t args = Inr out
           \<and> sent out = [(''DELETE FROM '' @ Name t @ w @ '' RETURNING *'', ps)]))
   \<and> (kept = filter (\<lambda>(col, v). col \<in> validColumns t) data \<and> kept \<noteq> []
      \<and> GetConnection (Connection t) = None \<longrightarrow>
        sent (Insert t data) =
          [(''INSERT INTO '' @ Name t @ '' ('' @ Join (map (\<lambda>(col, v). QuoteIdentifier col) kept) '', ''
              @ '') VALUES ('' @ Join (placeholders 1 (length kept)) '', '' @ '') RETURNING *'',
            map snd kept)])
   \<and> (data \<noteq> [] \<and> set_parts t data [] [] 1 = (setParts, sargs, k) \<and> setParts \<noteq> []
      \<and> buildWhereClause args k = Inr (w', ps', n') \<and> GetConnection (Connection t) = None \<longrightarrow>
        (\<exists>out. Update L clock ahead t data args = Inr out
           \<and> sent out = [(''UPDATE '' @ Name t @ '' SET '' @ Join setParts '', '' @ w'
                            @ '' RETURNING *'', sargs @ ps')])
      \<and> (\<forall>part \<in> set setParts. \<exists>col i. col \<in> fst ` set data
             \<and> part = QuoteIdentifier col @ '' = '' @ placeholder i))
   \<and> (where_args args [] [] m = Inr (conds, qs, m') \<longrightarrow>
        buildWhereClause args m =
          Inr (if conds = [] then '''' else '' WHERE '' @ Join conds '' AND '', qs, m')
      \<and> (\<forall>cond \<in> set conds. from_argument args cond))
   \<and> createTableSQL t =
       ''CREATE TABLE IF NOT EXISTS '' @ QuoteIdentifier (Name t) @ '' (''
         @ Join (map (\<lambda>col. QuoteIdentifier (Column.Name col) @ '' '' @ DataType col) (Columns t)) '', ''
         @ '')''
   \<and> dropTableSQL t = ''DROP TABLE IF EXISTS '' @ QuoteIdentifier (Name t)
   \<and> QuoteIdentifier (Name t) \<noteq> Name t"
proof -
  have reads: "cached_row L now t args = None \<and> buildWhereClause args 1 = Inr (w, ps, n)
      \<and> GetConnection (Connection t) = None \<longrightarrow>
        (\<exists>out. FetchOne L now now' t args = Inr out
           \<and> sent out = [(''SELECT * FROM '' @ Name t @ w @ '' LIMIT 1'', ps)])
      \<and> (\<exists>out. FetchMany t args = Inr out \<and> sent out = [(''SELECT * FROM '' @ Name t @ w, ps)])
      \<and> (\<exists>out. Table_Delete L ahead t args = Inr out
           \<and> sent out = [(''DELETE FROM '' @ Name t @ w @ '' RETURNING *'', ps)])"
  proof (intro impI conjI)
    assume a: "cached_row L now t args = None \<and> buildWhereClause args 1 = Inr (w, ps, n)
      \<and> GetConnection (Connection t) = None"
    show "\<exists>out. FetchOne L now now' t args = Inr out
           \<and> sent out = [(''SELECT * FROM '' @ Name t @ w @ '' LIMIT 1'', ps)]"
      using a by (intro FetchOne_sends) simp_all
    show "\<exists>out. FetchMany t args = Inr out \<and> sent out = [(''SELECT * FROM '' @ Name t @ w, ps)]"
      using a by (intro FetchMany_sends) simp_all
    show "\<exists>out. Table_Delete L ahead t args = Inr out
           \<and> sent out = [(''DELETE FROM '' @ Name t @ w @ '' RETURNING *'', ps)]"
      using a by (intro Table_Delete_sends) simp_all
  qed
  have ins: "kept = filter (\<lambda>(col, v). col \<in> validColumns t) data \<and> kept \<noteq> []
      \<and> GetConnection (Connection t) = None \<longrightarrow>
        sent (Insert t data) =
          [(''INSERT INTO '' @ Name t @ '' ('' @ Join (map (\<lambda>(col, v). QuoteIdentifier col) kept) '', ''
              @ '') VALUES ('' @ Join (placeholders 1 (length kept)) '', '' @ '') RETURNING *'',
            map snd kept)]"
  proof
    assume a: "kept = filter (\<lambda>(col, v). col \<in> validColumns t) data \<and> kept \<noteq> []
      \<and> GetConnection (Connection t) = None"
    show "sent (Insert t data) =
          [(''INSERT INTO '' @ Name t @ '' ('' @ Join (map (\<lambda>(col, v). QuoteIdentifier col) kept) '', ''
              @ '') VALUES ('' @ Join (placeholders 1 (length kept)) '', '' @ '') RETURNING *'',
            map snd kept)]"
      using a by (intro Insert_sends) blast+
  qed
  have upd: "data \<noteq> [] \<and> set_parts t data [] [] 1 = (setParts, sargs, k) \<and> setParts \<noteq> []
      \<and> buildWhereClause args k = Inr (w', ps', n') \<and> GetConnection (Connection t) = None \<longrightarrow>
        (\<exists>out. Update L clock ahead t data args = Inr out
           \<and> sent out = [(''UPDATE '' @ Name t @ '' SET '' @ Join setParts '', '' @ w'
                            @ '' RETURNING *'', sargs @ ps')])
      \<and> (\<forall>part \<in> set setParts. \<exists>col i. col \<in> fst ` set data
             \<and> part = QuoteIdentifier col @ '' = '' @ placeholder i)"
  proof (intro impI conjI)
    assume a: "data \<noteq> [] \<and> set_parts t data [] [] 1 = (setParts, sargs, k) \<and> setParts \<noteq> []
      \<and> buildWhereClause args k = Inr (w', ps', n') \<and> GetConnection (Connection t) = None"
    from a show "\<exists>out. Update L clock ahead t data args = Inr out
           \<and> sent out = [(''UPDATE '' @ Name t @ '' SET '' @ Join setParts '', '' @ w'
                            @ '' RETURNING *'', sargs @ ps')]"
      by (intro Update_sends) blast+
    show "\<forall>part \<in> set setParts. \<exists>col i. col \<in> fst ` set data
             \<and> part = QuoteIdentifier col @ '' = '' @ placeholder i"
      using set_parts_quoted [of t data "[]" "[]" 1 setParts sargs k] a by simp
  qed
  have whr: "where_args args [] [] m = Inr (conds, qs, m') \<longrightarrow>
        buildWhereClause args m =
          Inr (if conds = [] then '''' else '' WHERE '' @ Join conds '' AND '', qs, m')
      \<and> (\<forall>cond \<in> set conds. from_argument args cond)"
    using where_args_conditions [of args "[]" "[]" m conds qs m']
    by (auto simp: buildWhereClause_def)
  have ddl: "createTableSQL t =
       ''CREATE TABLE IF NOT EXISTS '' @ QuoteIdentifier (Name t) @ '' (''
         @ Join (map (\<lambda>col. QuoteIdentifier (Column.Name col) @ '' '' @ DataType col) (Columns t)) '', ''
         @ '')''"
    "dropTableSQL t = ''DROP TABLE IF EXISTS '' @ QuoteIdentifier (Name t)"
    by (simp_all add: createTableSQL_def dropTableSQL_def)
  show ?thesis
    by (intro conjI reads ins upd whr ddl QuoteIdentifier_changes)
qed

text \<open>Claim C10 on the example table \<open>users\<close>, statement by statement.\<close>

theorem table_name_verbatim_witness:
  \<open>(\<exists>out. FetchOne example_lib 0 10 example_table [VMap [(''id'', VInt 1)]] = Inr out
        \<and> sent out = [(''SELECT * FROM users WHERE "id" = $1 LIMIT 1'', [VInt 1])])
   \<and> (\<exists>out. FetchMany example_table [VMap [(''id'', VInt 1)]] = Inr out
        \<and> sent out = [(''SELECT * FROM users WHERE "id" = $1'', [VInt 1])])
   \<and> (\<exists>out. Table_Delete example_lib 0 example_table [VMap [(''id'', VInt 1)]] = Inr out
        \<and> sent out = [(''DELETE FROM users WHERE "id" = $1 RETURNING *'', [VInt 1])])
   \<and> sent (Insert example_table [(''age'', VInt 25), (''nick'', VStr ''al'')]) =
        [(''INSERT INTO users ("age") VALUES ($1) RETURNING *'', [VInt 25])]
   \<and> (\<exists>out. Update example_lib (\<lambda>i. 40) 0 example_table [(''age'', VInt 26)]
            [VStr ''age > 20'', VMap [(''id'', VInt 1)]] = Inr out
        \<and> sent out = [(''UPDATE users SET "age" = $1 WHERE age > 20 AND "id" = $2 RETURNING *'',
                       [VInt 26, VInt 1])])
   \<and> createTableSQL example_table =
        ''CREATE TABLE IF NOT EXISTS "users" ("id" SERIAL PRIMARY KEY, "age" INTEGER)''
   \<and> dropTableSQL example_table = ''DROP TABLE IF EXISTS "users"''\<close>
proof -
  let ?args = "[VMap [(''id'', VInt 1)]]"
  let ?uargs = "[VStr ''age > 20'', VMap [(''id'', VInt 1)]]"
  let ?data = "[(''age'', VInt 25), (''nick'', VStr ''al'')]"
  let ?udata = "[(''age'', VInt 26)]"
  have one: "Sprint example_lib (VInt 1) = ''1''"
    by (simp add: example_lib_def text_defs)
  have miss: "cached_row example_lib 0 example_table ?args = None"
    by (simp add: cached_row_def example_table_eq table_defs NewMemoryCache_def one)
  have w: \<open>buildWhereClause ?args 1 = Inr ('' WHERE "id" = $1'', [VInt 1], 2)\<close>
    by (simp add: buildWhereClause_def text_defs)
  have g: "GetConnection (Connection example_table) = None" by (simp add: example_table_eq)
  have n: "Name example_table = ''users''" by (simp add: example_table_eq)
  have kept: "[(''age'', VInt 25)] = filter (\<lambda>(col, v). col \<in> validColumns example_table) ?data"
    by (simp add: validColumns_def example_table_eq)
  have sp: \<open>set_parts example_table ?udata [] [] 1 = ([''"age" = $1''], [VInt 26], 2)\<close>
    by (simp add: validColumns_def example_table_eq text_defs)
  have uw: \<open>buildWhereClause ?uargs 2 = Inr ('' WHERE age > 20 AND "id" = $2'', [VInt 1], 3)\<close>
    by (simp add: buildWhereClause_def text_defs)
  have ct: \<open>''CREATE TABLE IF NOT EXISTS '' @ QuoteIdentifier (Name example_table) @ '' (''
         @ Join (map (\<lambda>col. QuoteIdentifier (Column.Name col) @ '' '' @ DataType col)
                  (Columns example_table)) '', '' @ '')''
      = ''CREATE TABLE IF NOT EXISTS "users" ("id" SERIAL PRIMARY KEY, "age" INTEGER)''\<close>
    by (simp add: example_table_eq QuoteIdentifier_def)
  have dt: \<open>''DROP TABLE IF EXISTS '' @ QuoteIdentifier (Name example_table)
      = ''DROP TABLE IF EXISTS "users"''\<close>
    by (simp add: example_table_eq QuoteIdentifier_def)
  have p1: \<open>Join (placeholders 1 (length [(''age'', VInt 25)])) '', '' = ''$1''\<close>
    by (simp add: placeholders_def text_defs)
  note T = table_name_verbatim [where L = example_lib and t = example_table and now = 0
      and now' = 10 and ahead = 0 and clock = "\<lambda>i. 40"]
  note R = T [where args = ?args and w = \<open>'' WHERE "id" = $1''\<close> and ps = "[VInt 1]" and n = 2,
      THEN conjunct1, rule_format, OF conjI [OF miss conjI [OF w g]]]
  note I = T [where kept = "[(''age'', VInt 25)]" and data = ?data,
      THEN conjunct2, THEN conjunct1, rule_format, OF conjI [OF kept conjI [OF _ g]]]
  note U = T [where data = ?udata and args = ?uargs and setParts = \<open>[''"age" = $1'']\<close>
      and sargs = "[VInt 26]" and k = 2 and w' = \<open>'' WHERE age > 20 AND "id" = $2''\<close>
      and ps' = "[VInt 1]" and n' = 3,
      THEN conjunct2, THEN conjunct2, THEN conjunct1, rule_format,
      OF conjI [OF _ conjI [OF sp conjI [OF _ conjI [OF uw g]]]], THEN conjunct1]
  note D = T [THEN conjunct2, THEN conjunct2, THEN conjunct2, THEN conjunct2]
  have 1: \<open>\<exists>out. FetchOne example_lib 0 10 example_table ?args = Inr out
        \<and> sent out = [(''SELECT * FROM users WHERE "id" = $1 LIMIT 1'', [VInt 1])]\<close>
    using R [THEN conjunct1] by (simp add: n)
  have 2: \<open>\<exists>out. FetchMany example_table ?args = Inr out
        \<and> sent out = [(''SELECT * FROM users WHERE "id" = $1'', [VInt 1])]\<close>
    using R [THEN conjunct2, THEN conjunct1] by (simp add: n)
  have 3: \<open>\<exists>out. Table_Delete example_lib 0 example_table ?args = Inr out
        \<and> sent out = [(''DELETE FROM users WHERE "id" = $1 RETURNING *'', [VInt 1])]\<close>
    using R [THEN conjunct2, THEN conjunct2] by (simp add: n)
  have 4: \<open>sent (Insert example_table ?data) =
        [(''INSERT INTO users ("age") VALUES ($1) RETURNING *'', [VInt 25])]\<close>
    using I p1 by (simp add: n QuoteIdentifier_def)
  have 5: \<open>\<exists>out. Update example_lib (\<lambda>i. 40) 0 example_table ?udata ?uargs = Inr out
        \<and> sent out = [(''UPDATE users SET "age" = $1 WHERE age > 20 AND "id" = $2 RETURNING *'',
                       [VInt 26, VInt 1])]\<close>
    using U by (simp add: n)
  have 6: \<open>createTableSQL example_table =
        ''CREATE TABLE IF NOT EXISTS "users" ("id" SERIAL PRIMARY KEY, "age" INTEGER)''\<close>
    using D [THEN conjunct1] ct by simp
  have 7: \<open>dropTableSQL example_table = ''DROP TABLE IF EXISTS "users"''\<close>
    using D [THEN conjunct2, THEN conjunct1] dt by simp
  show ?thesis by (intro conjI 1 2 3 4 5 6 7)
qed

end
